theory Spec2Isabelle
  imports Complex_Main "HOL-Library.Multiset" "HOL-Library.Log_Nat"
begin

section \<open>JSON values and change records\<close>

text \<open>
  A JSON-shaped value as the diff engine of \<^verbatim>\<open>js/utils.js\<close> receives it. An object is
  the list of its own properties in the order of \<^verbatim>\<open>Object.keys\<close>; the number type is a
  parameter, since the engine only tests numbers with \<^verbatim>\<open>!==\<close>.
\<close>

datatype 'n json =
    JNull
  | JBool bool
  | JNum 'n
  | JStr string
  | JArr (elems: "'n json list")
  | JObj (props: "(string \<times> 'n json) list")

text \<open>
  The records pushed to \<^verbatim>\<open>changes.added\<close>, \<^verbatim>\<open>changes.removed\<close> and \<^verbatim>\<open>changes.unchanged\<close>;
  the field \<^verbatim>\<open>value\<close> is \<open>val\<close> here.
\<close>

record 'n change =
  path :: string
  val :: "'n json"
  type :: string

text \<open>
  The records pushed to \<^verbatim>\<open>changes.modified\<close>: the one of a type mismatch carries
  \<^verbatim>\<open>oldType\<close> and \<^verbatim>\<open>newType\<close>, the one of two different primitives a single \<^verbatim>\<open>type\<close>.
\<close>

datatype 'n modification =
    TypeChange (mpath: string) (oldValue: "'n json") (newValue: "'n json")
      (oldType: string) (newType: string)
  | ValueChange (mpath: string) (oldValue: "'n json") (newValue: "'n json") (mtype: string)

record 'n changes =
  added :: "'n change list"
  removed :: "'n change list"
  modified :: "'n modification list"
  unchanged :: "'n change list"

section \<open>The comparator\<close>

fun getType :: "'n json \<Rightarrow> string" where
  "getType JNull = ''null''"
| "getType (JArr xs) = ''array''"
| "getType (JObj kvs) = ''object''"
| "getType v = ''primitive''"

text \<open>
  \<^verbatim>\<open>Object.keys(obj)\<close>, \<^verbatim>\<open>keys.includes(key)\<close> and \<^verbatim>\<open>obj[key]\<close>; the comparator reads
  \<^verbatim>\<open>obj[key]\<close> only where \<^verbatim>\<open>key\<close> is an own key of \<^verbatim>\<open>obj\<close>.
\<close>

definition Object_keys :: "(string \<times> 'n json) list \<Rightarrow> string list" where
  "Object_keys obj = map fst obj"

definition Array_includes :: "'a list \<Rightarrow> 'a \<Rightarrow> bool" where
  "Array_includes xs x = (x \<in> set xs)"

definition get_prop :: "(string \<times> 'n json) list \<Rightarrow> string \<Rightarrow> 'n json" where
  "get_prop obj key = the (map_of obj key)"

text \<open>\<^verbatim>\<open>new Set(xs)\<close> iterated by \<^verbatim>\<open>forEach\<close>: insertion order, later duplicates dropped.\<close>

definition Set_of :: "'a list \<Rightarrow> 'a list" where
  "Set_of xs = fold (\<lambda>x s. if x \<in> set s then s else s @ [x]) xs []"

text \<open>The decimal text of an array index inside a template string.\<close>

definition digit :: "nat \<Rightarrow> char" where
  "digit d = ''0123456789'' ! d"

fun String_nat :: "nat \<Rightarrow> string" where
  "String_nat n = (if n < 10 then [digit n] else String_nat (n div 10) @ [digit (n mod 10)])"

declare String_nat.simps [simp del]

text \<open>
  The two expressions bound to \<^verbatim>\<open>newPath\<close>: \<^verbatim>\<open>path ? `${path}.${key}` : key\<close> in
  \<^verbatim>\<open>compareObjects\<close> (an empty string is falsy) and \<^verbatim>\<open>`${path}[${i}]`\<close> in \<^verbatim>\<open>compareArrays\<close>.
\<close>

definition keyPath :: "string \<Rightarrow> string \<Rightarrow> string" where
  "keyPath curPath key = (if curPath \<noteq> [] then curPath @ ''.'' @ key else key)"

definition indexPath :: "string \<Rightarrow> nat \<Rightarrow> string" where
  "indexPath curPath i = curPath @ ''['' @ String_nat i @ '']''"

lemma size_member_less:
  "(k, v) \<in> set obj \<Longrightarrow> size v < Suc (size_list (size_prod (\<lambda>_. 0) size) obj)"
  by (induction obj) auto

lemma size_prop_less:
  assumes "key \<in> set (map fst obj)"
  shows "size (get_prop obj key) < Suc (size_list (size_prod (\<lambda>_. 0) size) obj)"
proof -
  from assms obtain v where v: "map_of obj key = Some v"
    by (cases "map_of obj key") (auto simp: map_of_eq_None_iff)
  then have "(key, v) \<in> set obj"
    by (rule map_of_SomeD)
  then show ?thesis
    using v by (simp add: get_prop_def size_member_less)
qed

lemma size_elem_less: "x \<in> set xs \<Longrightarrow> size x < Suc (size_list size xs)"
  by (induction xs) auto

lemma size_nth_less: "i < length xs \<Longrightarrow> size (xs ! i) < Suc (size_list size xs)"
  by (simp add: size_elem_less)

function deepCompare :: "'n json \<Rightarrow> 'n json \<Rightarrow> string \<Rightarrow> 'n changes \<Rightarrow> 'n changes"
  and compareObjects ::
    "(string \<times> 'n json) list \<Rightarrow> (string \<times> 'n json) list \<Rightarrow> string \<Rightarrow> 'n changes \<Rightarrow> 'n changes"
  and compareArrays :: "'n json list \<Rightarrow> 'n json list \<Rightarrow> string \<Rightarrow> 'n changes \<Rightarrow> 'n changes"
  where
  "deepCompare oldVal newVal curPath changes =
     (if oldVal = JNull \<and> newVal = JNull then
        changes\<lparr>unchanged := unchanged changes @ [\<lparr>path = curPath, val = JNull, type = ''null''\<rparr>]\<rparr>
      else if oldVal = JNull \<or> newVal = JNull then
        (if oldVal = JNull then
           changes\<lparr>added := added changes @ [\<lparr>path = curPath, val = newVal, type = getType newVal\<rparr>]\<rparr>
         else
           changes\<lparr>removed := removed changes @ [\<lparr>path = curPath, val = oldVal, type = getType oldVal\<rparr>]\<rparr>)
      else if getType oldVal \<noteq> getType newVal then
        changes\<lparr>modified := modified changes @
          [TypeChange curPath oldVal newVal (getType oldVal) (getType newVal)]\<rparr>
      else if getType oldVal = ''object'' then
        compareObjects (props oldVal) (props newVal) curPath changes
      else if getType oldVal = ''array'' then
        compareArrays (elems oldVal) (elems newVal) curPath changes
      else if getType oldVal = ''primitive'' then
        (if oldVal \<noteq> newVal then
           changes\<lparr>modified := modified changes @
             [ValueChange curPath oldVal newVal (getType oldVal)]\<rparr>
         else
           changes\<lparr>unchanged := unchanged changes @
             [\<lparr>path = curPath, val = oldVal, type = getType oldVal\<rparr>]\<rparr>)
      else changes)"
| "compareObjects oldObj newObj curPath changes =
     fold (\<lambda>key changes.
        if Array_includes (Object_keys oldObj) key \<and> Array_includes (Object_keys newObj) key then
          deepCompare (get_prop oldObj key) (get_prop newObj key) (keyPath curPath key) changes
        else if Array_includes (Object_keys oldObj) key then
          changes\<lparr>removed := removed changes @
            [\<lparr>path = keyPath curPath key, val = get_prop oldObj key, type = getType (get_prop oldObj key)\<rparr>]\<rparr>
        else
          changes\<lparr>added := added changes @
            [\<lparr>path = keyPath curPath key, val = get_prop newObj key, type = getType (get_prop newObj key)\<rparr>]\<rparr>)
      (Set_of (Object_keys oldObj @ Object_keys newObj)) changes"
| "compareArrays oldArr newArr curPath changes =
     fold (\<lambda>i changes.
        if i < length oldArr \<and> i < length newArr then
          deepCompare (oldArr ! i) (newArr ! i) (indexPath curPath i) changes
        else if i < length oldArr then
          changes\<lparr>removed := removed changes @
            [\<lparr>path = indexPath curPath i, val = oldArr ! i, type = getType (oldArr ! i)\<rparr>]\<rparr>
        else
          changes\<lparr>added := added changes @
            [\<lparr>path = indexPath curPath i, val = newArr ! i, type = getType (newArr ! i)\<rparr>]\<rparr>)
      [0..<max (length oldArr) (length newArr)] changes"
  by pat_completeness auto

termination
proof (relation "measure (\<lambda>x. case x of
    Inl (oldVal, newVal, curPath, changes) \<Rightarrow> 2 * size oldVal
  | Inr (Inl (oldObj, newObj, curPath, changes)) \<Rightarrow> 2 * size_list (size_prod (\<lambda>_. 0) size) oldObj + 1
  | Inr (Inr (oldArr, newArr, curPath, changes)) \<Rightarrow> 2 * size_list size oldArr + 1)", goal_cases)
  case 1
  show ?case by simp
next
  case (2 oldVal newVal curPath changes)
  then show ?case by (cases oldVal) auto
next
  case (3 oldVal newVal curPath changes)
  then show ?case by (cases oldVal) auto
next
  case (4 oldObj newObj curPath changes key ch)
  then show ?case
    using size_prop_less [of key oldObj] by (simp add: Array_includes_def Object_keys_def)
next
  case (5 oldArr newArr curPath changes i ch)
  then show ?case
    using size_nth_less [of i oldArr] by simp
qed

declare deepCompare.simps [simp del] compareObjects.simps [simp del] compareArrays.simps [simp del]

definition empty_changes :: "'n changes" where
  "empty_changes = \<lparr>added = [], removed = [], modified = [], unchanged = []\<rparr>"

definition compare :: "'n json \<Rightarrow> 'n json \<Rightarrow> 'n changes" where
  "compare oldObj newObj = deepCompare oldObj newObj [] empty_changes"

section \<open>The path model\<close>

text \<open>
  The comparator builds a path segment by segment with \<open>keyPath\<close> and \<open>indexPath\<close>;
  \<open>format\<close> folds them over a segment sequence, starting from the root path \<^verbatim>\<open>''\<close>.
\<close>

datatype segment = Key string | Index nat

definition format :: "segment list \<Rightarrow> string" where
  "format segs =
     fold (\<lambda>seg curPath. case seg of Key k \<Rightarrow> keyPath curPath k | Index i \<Rightarrow> indexPath curPath i)
       segs []"

text \<open>\<^verbatim>\<open>str.split('.')\<close>: the pieces between the dots, \<^verbatim>\<open>['']\<close> for the empty string.\<close>

fun split_dot :: "string \<Rightarrow> string list" where
  "split_dot [] = [[]]"
| "split_dot (c # cs) =
     (if c = CHR ''.'' then [] # split_dot cs
      else (case split_dot cs of [] \<Rightarrow> [[c]] | part # parts \<Rightarrow> (c # part) # parts))"

text \<open>
  \<^verbatim>\<open>part.replace(/\[\d+\]/, '')\<close>: the regular expression has no \<^verbatim>\<open>g\<close> flag, so only the
  leftmost \<^verbatim>\<open>[digits]\<close> is removed.
\<close>

definition is_digit :: "char \<Rightarrow> bool" where
  "is_digit c = (c \<in> set ''0123456789'')"

fun replace_index :: "string \<Rightarrow> string" where
  "replace_index [] = []"
| "replace_index (c # cs) =
     (if c = CHR ''['' \<and> takeWhile is_digit cs \<noteq> [] \<and>
         dropWhile is_digit cs \<noteq> [] \<and> hd (dropWhile is_digit cs) = CHR '']''
      then tl (dropWhile is_digit cs)
      else c # replace_index cs)"

definition getPathParts :: "string \<Rightarrow> string list" where
  "getPathParts p = map replace_index (split_dot p)"

section \<open>The aggregator\<close>

text \<open>
  JavaScript numbers are IEEE 754 doubles. A count of records is an integer below \<open>2^32\<close> and
  is exact; a quotient and a product are rounded to the nearest double, ties to even. For the
  magnitudes that occur here (normal range) that is rounding to 53 significant bits:
  \<open>binade x\<close> is the exponent \<open>e\<close> with \<open>2^e \<le> x < 2^(e+1)\<close>.
\<close>

definition round_even :: "rat \<Rightarrow> int" where
  "round_even x =
     (let f = \<lfloor>x\<rfloor>; d = x - of_int f
      in if d < 1 / 2 then f else if 1 / 2 < d then f + 1 else if even f then f else f + 1)"

definition binade :: "rat \<Rightarrow> int" where
  "binade x =
     (if 1 \<le> x then int (floorlog 2 (nat \<lfloor>x\<rfloor>)) - 1
      else - int (floorlog 2 (nat \<lceil>1 / x\<rceil> - 1)))"

definition round_double :: "rat \<Rightarrow> rat" where
  "round_double x =
     (if x = 0 then 0
      else (let u = 2 powi (binade \<bar>x\<bar> - 52) in of_int (round_even (x / u)) * u))"

definition fdiv :: "rat \<Rightarrow> rat \<Rightarrow> rat" where
  "fdiv x y = round_double (x / y)"

definition fmul :: "rat \<Rightarrow> rat \<Rightarrow> rat" where
  "fmul x y = round_double (x * y)"

text \<open>\<^verbatim>\<open>Math.round\<close>: the nearest integer, a tie going up.\<close>

definition Math_round :: "rat \<Rightarrow> int" where
  "Math_round x = \<lfloor>x + 1 / 2\<rfloor>"

definition calculateChangePercentage :: "'n changes \<Rightarrow> int" where
  "calculateChangePercentage changes =
     (let total = length (added changes) + length (removed changes) +
                  length (modified changes) + length (unchanged changes)
      in if total = 0 then 0
         else (let changed = length (added changes) + length (removed changes) +
                             length (modified changes)
               in Math_round (fmul (fdiv (of_nat changed) (of_nat total)) 100)))"

text \<open>
  The object returned by \<^verbatim>\<open>calculateStats\<close>; its fields \<^verbatim>\<open>added\<close>, \<^verbatim>\<open>removed\<close>, \<^verbatim>\<open>modified\<close> and
  \<^verbatim>\<open>unchanged\<close> are prefixed here, the names being those of the result's sequences.
\<close>

record stats =
  totalChanges :: nat
  stats_added :: nat
  stats_removed :: nat
  stats_modified :: nat
  stats_unchanged :: nat
  changePercentage :: int

definition calculateStats :: "'n changes \<Rightarrow> stats" where
  "calculateStats changes =
     \<lparr>totalChanges = length (added changes) + length (removed changes) + length (modified changes),
      stats_added = length (added changes),
      stats_removed = length (removed changes),
      stats_modified = length (modified changes),
      stats_unchanged = length (unchanged changes),
      changePercentage = calculateChangePercentage changes\<rparr>"

text \<open>
  \<^verbatim>\<open>formatValue\<close> and \<^verbatim>\<open>generateJSONataQueries\<close> print values with the built-ins
  \<^verbatim>\<open>JSON.stringify\<close> and \<^verbatim>\<open>String\<close>, which are parameters here.
\<close>

definition truncate :: "string \<Rightarrow> nat \<Rightarrow> string" where
  "truncate str maxLength = (if length str > maxLength then take maxLength str @ ''...'' else str)"

definition formatValue ::
  "('n json \<Rightarrow> string) \<Rightarrow> ('n json \<Rightarrow> string) \<Rightarrow> 'n json \<Rightarrow> nat \<Rightarrow> string" where
  "formatValue stringify toString v maxLength =
     (if v = JNull then ''null''
      else if getType v = ''object'' \<or> getType v = ''array'' then truncate (stringify v) maxLength
      else truncate (toString v) maxLength)"

text \<open>
  A query object: \<^verbatim>\<open>type\<close>, \<^verbatim>\<open>path\<close>, \<^verbatim>\<open>query\<close> and \<^verbatim>\<open>description\<close>, then \<^verbatim>\<open>value\<close> for an
  addition, \<^verbatim>\<open>oldValue\<close> for a deletion, both \<^verbatim>\<open>oldValue\<close> and \<^verbatim>\<open>newValue\<close> for a modification.
\<close>

record 'n query =
  q_type :: string
  q_path :: string
  q_query :: string
  q_description :: string
  q_value :: "'n json option"
  q_oldValue :: "'n json option"
  q_newValue :: "'n json option"

definition dquote :: string where
  "dquote = [CHR 0x22]"

definition generateJSONataQueries ::
  "('n json \<Rightarrow> string) \<Rightarrow> ('n json \<Rightarrow> string) \<Rightarrow> 'n changes \<Rightarrow> 'n query list" where
  "generateJSONataQueries stringify toString changes =
     (let queries = [];
          queries = fold (\<lambda>change queries. queries @
            [\<lparr>q_type = ''addition'', q_path = path change,
              q_query = ''$ ~> | $ | { '' @ dquote @ path change @ dquote @ '': '' @ stringify (val change) @ '' } |'',
              q_description = ''Add field '' @ path change,
              q_value = Some (val change), q_oldValue = None, q_newValue = None\<rparr>])
            (added changes) queries;
          queries = fold (\<lambda>change queries. queries @
            [\<lparr>q_type = ''deletion'', q_path = path change,
              q_query = ''$ ~> | $ | { '' @ dquote @ path change @ dquote @ '': undefined } |'',
              q_description = ''Remove field '' @ path change,
              q_value = None, q_oldValue = Some (val change), q_newValue = None\<rparr>])
            (removed changes) queries;
          queries = fold (\<lambda>change queries. queries @
            [\<lparr>q_type = ''modification'', q_path = mpath change,
              q_query = ''$ ~> | $ | { '' @ dquote @ mpath change @ dquote @ '': '' @ stringify (newValue change) @ '' } |'',
              q_description = ''Change '' @ mpath change @ '' from '' @
                formatValue stringify toString (oldValue change) 50 @ '' to '' @
                formatValue stringify toString (newValue change) 50,
              q_value = None, q_oldValue = Some (oldValue change),
              q_newValue = Some (newValue change)\<rparr>])
            (modified changes) queries
      in queries)"

section \<open>Notions used by the properties\<close>

text \<open>
  \<open>chg_append a b\<close> is the result \<open>a\<close> followed, sequence by sequence, by \<open>b\<close>, and
  \<open>chg_concat\<close> appends a list of results.
\<close>

definition chg_append :: "'n changes \<Rightarrow> 'n changes \<Rightarrow> 'n changes" where
  "chg_append a b = \<lparr>added = added a @ added b, removed = removed a @ removed b,
     modified = modified a @ modified b, unchanged = unchanged a @ unchanged b\<rparr>"

definition chg_concat :: "'n changes list \<Rightarrow> 'n changes" where
  "chg_concat cs = foldr chg_append cs empty_changes"

text \<open>
  What one key of \<^verbatim>\<open>compareObjects\<close> and one index of \<^verbatim>\<open>compareArrays\<close> contribute, started
  on an empty accumulator.
\<close>

definition key_changes ::
  "(string \<times> 'n json) list \<Rightarrow> (string \<times> 'n json) list \<Rightarrow> string \<Rightarrow> string \<Rightarrow> 'n changes" where
  "key_changes oldObj newObj p key =
     (if key \<in> set (Object_keys oldObj) \<and> key \<in> set (Object_keys newObj) then
        deepCompare (get_prop oldObj key) (get_prop newObj key) (keyPath p key) empty_changes
      else if key \<in> set (Object_keys oldObj) then
        empty_changes\<lparr>removed :=
          [\<lparr>path = keyPath p key, val = get_prop oldObj key, type = getType (get_prop oldObj key)\<rparr>]\<rparr>
      else
        empty_changes\<lparr>added :=
          [\<lparr>path = keyPath p key, val = get_prop newObj key, type = getType (get_prop newObj key)\<rparr>]\<rparr>)"

definition index_changes :: "'n json list \<Rightarrow> 'n json list \<Rightarrow> string \<Rightarrow> nat \<Rightarrow> 'n changes" where
  "index_changes oldArr newArr p i =
     (if i < length oldArr \<and> i < length newArr then
        deepCompare (oldArr ! i) (newArr ! i) (indexPath p i) empty_changes
      else if i < length oldArr then
        empty_changes\<lparr>removed :=
          [\<lparr>path = indexPath p i, val = oldArr ! i, type = getType (oldArr ! i)\<rparr>]\<rparr>
      else
        empty_changes\<lparr>added :=
          [\<lparr>path = indexPath p i, val = newArr ! i, type = getType (newArr ! i)\<rparr>]\<rparr>)"

text \<open>
  A JavaScript object has no two properties with the same key: \<open>well_formed\<close> says so of every
  object inside a value. \<open>leaves X p\<close> lists, in traversal order, the leaves reachable in \<open>X\<close>
  (its \<^verbatim>\<open>null\<close>s and primitives), each as the record of its path below \<open>p\<close>, its value and its
  kind; an empty object or array has no leaf.
\<close>

fun well_formed :: "'n json \<Rightarrow> bool" where
  "well_formed (JArr xs) = list_all well_formed xs"
| "well_formed (JObj kvs) = (distinct (map fst kvs) \<and> list_all (\<lambda>kv. well_formed (snd kv)) kvs)"
| "well_formed v = True"

function leaves :: "'n json \<Rightarrow> string \<Rightarrow> 'n change list" where
  "leaves (JArr xs) p = concat (map (\<lambda>i. leaves (xs ! i) (indexPath p i)) [0..<length xs])"
| "leaves (JObj kvs) p = concat (map (\<lambda>kv. leaves (snd kv) (keyPath p (fst kv))) kvs)"
| "leaves JNull p = [\<lparr>path = p, val = JNull, type = ''null''\<rparr>]"
| "leaves (JBool b) p = [\<lparr>path = p, val = JBool b, type = ''primitive''\<rparr>]"
| "leaves (JNum n) p = [\<lparr>path = p, val = JNum n, type = ''primitive''\<rparr>]"
| "leaves (JStr s) p = [\<lparr>path = p, val = JStr s, type = ''primitive''\<rparr>]"
  by pat_completeness auto

termination
proof (relation "measure (\<lambda>(v, p). size v)", goal_cases)
  case 1
  show ?case by simp
next
  case (2 xs p i)
  then show ?case using size_nth_less [of i xs] by simp
next
  case (3 kvs p kv)
  then show ?case using size_member_less [of "fst kv" "snd kv" kvs] by simp
qed

text \<open>
  \<open>mirror r\<close> exchanges the Added and the Removed records of \<open>r\<close> and the old and new sides
  of its Modified records; \<open>same_sets\<close> compares two results sequence by sequence, as sets.
\<close>

fun swap_values :: "'n modification \<Rightarrow> 'n modification" where
  "swap_values (TypeChange p ov nv ot nt) = TypeChange p nv ov nt ot"
| "swap_values (ValueChange p ov nv t) = ValueChange p nv ov t"

definition mirror :: "'n changes \<Rightarrow> 'n changes" where
  "mirror r = \<lparr>added = removed r, removed = added r, modified = map swap_values (modified r),
     unchanged = unchanged r\<rparr>"

definition same_sets :: "'n changes \<Rightarrow> 'n changes \<Rightarrow> bool" where
  "same_sets a b \<longleftrightarrow>
     set (added a) = set (added b) \<and> set (removed a) = set (removed b) \<and>
     set (modified a) = set (modified b) \<and> set (unchanged a) = set (unchanged b)"

text \<open>
  \<open>all_paths r\<close> lists the path of every record of \<open>r\<close>, the four sequences one after the
  other. \<open>all_keys P X\<close> says that every object key inside \<open>X\<close> satisfies \<open>P\<close>; a key is
  \<open>no_special\<close> when it has no dot and no bracket, and a \<open>plain_key\<close> when it is not empty
  either. \<open>below p\<close> is the set of the strings that the comparator can build from the path
  \<open>p\<close>: every string when \<open>p\<close> is the root path, and otherwise \<open>p\<close> itself and \<open>p\<close> followed
  by a dot or an opening bracket and anything.
\<close>

definition all_paths :: "'n changes \<Rightarrow> string list" where
  "all_paths r =
     map path (added r) @ map path (removed r) @ map mpath (modified r) @ map path (unchanged r)"

definition no_special :: "string \<Rightarrow> bool" where
  "no_special key = list_all (\<lambda>c. c \<notin> set ''.[]'') key"

definition plain_key :: "string \<Rightarrow> bool" where
  "plain_key key \<longleftrightarrow> key \<noteq> [] \<and> no_special key"

fun all_keys :: "(string \<Rightarrow> bool) \<Rightarrow> 'n json \<Rightarrow> bool" where
  "all_keys P (JArr xs) = list_all (all_keys P) xs"
| "all_keys P (JObj kvs) = list_all (\<lambda>kv. P (fst kv) \<and> all_keys P (snd kv)) kvs"
| "all_keys P v = True"

definition below :: "string \<Rightarrow> string set" where
  "below p = (if p = [] then UNIV
              else {p @ s | s. s = [] \<or> hd s = CHR ''.'' \<or> hd s = CHR ''[''})"

section \<open>The accumulator is only appended to\<close>

text \<open>
  Every call of the comparator returns its accumulator followed by what the same call yields
  on an empty one.
\<close>

lemma chg_append_empty [simp]: "chg_append c empty_changes = c" "chg_append empty_changes c = c"
  by (simp_all add: chg_append_def empty_changes_def)

lemma chg_append_assoc: "chg_append (chg_append a b) c = chg_append a (chg_append b c)"
  by (simp add: chg_append_def)

lemma chg_append_sel [simp]:
  "added (chg_append a b) = added a @ added b"
  "removed (chg_append a b) = removed a @ removed b"
  "modified (chg_append a b) = modified a @ modified b"
  "unchanged (chg_append a b) = unchanged a @ unchanged b"
  by (simp_all add: chg_append_def)

lemma chg_concat_simps [simp]:
  "chg_concat [] = empty_changes"
  "chg_concat (c # cs) = chg_append c (chg_concat cs)"
  by (simp_all add: chg_concat_def)

lemma push_as_append:
  "c\<lparr>added := added c @ [x]\<rparr> = chg_append c (empty_changes\<lparr>added := [x]\<rparr>)"
  "c\<lparr>removed := removed c @ [x]\<rparr> = chg_append c (empty_changes\<lparr>removed := [x]\<rparr>)"
  "c\<lparr>modified := modified c @ [m]\<rparr> = chg_append c (empty_changes\<lparr>modified := [m]\<rparr>)"
  "c\<lparr>unchanged := unchanged c @ [x]\<rparr> = chg_append c (empty_changes\<lparr>unchanged := [x]\<rparr>)"
  by (simp_all add: chg_append_def empty_changes_def)

lemma fold_append_only:
  assumes "\<And>x c. x \<in> set xs \<Longrightarrow> f x c = chg_append c (f x empty_changes)"
  shows "fold f xs c = chg_append c (chg_concat (map (\<lambda>x. f x empty_changes) xs))"
  using assms
proof (induction xs arbitrary: c)
  case Nil
  show ?case by simp
next
  case (Cons x xs)
  have IH: "fold f xs (f x c) = chg_append (f x c) (chg_concat (map (\<lambda>x. f x empty_changes) xs))"
    by (rule Cons.IH) (rule Cons.prems, simp)
  have hd: "f x c = chg_append c (f x empty_changes)"
    by (rule Cons.prems) simp
  have "fold f (x # xs) c = fold f xs (f x c)" by simp
  also note IH
  also have "chg_append (f x c) (chg_concat (map (\<lambda>x. f x empty_changes) xs)) =
      chg_append c (chg_append (f x empty_changes) (chg_concat (map (\<lambda>x. f x empty_changes) xs)))"
    by (subst hd) (rule chg_append_assoc)
  finally show ?case by simp
qed

lemma fold_append_only':
  assumes "\<And>x c. x \<in> set xs \<Longrightarrow> f x c = chg_append c (f x empty_changes)"
  shows "fold f xs c = chg_append c (fold f xs empty_changes)"
proof -
  have "fold f xs empty_changes = chg_append empty_changes (chg_concat (map (\<lambda>x. f x empty_changes) xs))"
    using assms by (rule fold_append_only)
  moreover have "fold f xs c = chg_append c (chg_concat (map (\<lambda>x. f x empty_changes) xs))"
    using assms by (rule fold_append_only)
  ultimately show ?thesis by simp
qed

lemma append_only:
  "deepCompare oldVal newVal p ch = chg_append ch (deepCompare oldVal newVal p empty_changes)"
  "compareObjects oldObj newObj p ch = chg_append ch (compareObjects oldObj newObj p empty_changes)"
  "compareArrays oldArr newArr p ch = chg_append ch (compareArrays oldArr newArr p empty_changes)"
proof (induction oldVal newVal p ch and oldObj newObj p ch and oldArr newArr p ch
    rule: deepCompare_compareObjects_compareArrays.induct)
  case (1 oldVal newVal curPath changes)
  show ?case
    unfolding deepCompare.simps [of oldVal newVal curPath changes]
      deepCompare.simps [of oldVal newVal curPath empty_changes]
    using 1 by (simp add: push_as_append)
next
  case (2 oldObj newObj curPath changes)
  have step: "f x c = chg_append c (f x empty_changes)"
    if "f = (\<lambda>key changes.
        if Array_includes (Object_keys oldObj) key \<and> Array_includes (Object_keys newObj) key then
          deepCompare (get_prop oldObj key) (get_prop newObj key) (keyPath curPath key) changes
        else if Array_includes (Object_keys oldObj) key then
          changes\<lparr>removed := removed changes @
            [\<lparr>path = keyPath curPath key, val = get_prop oldObj key, type = getType (get_prop oldObj key)\<rparr>]\<rparr>
        else
          changes\<lparr>added := added changes @
            [\<lparr>path = keyPath curPath key, val = get_prop newObj key, type = getType (get_prop newObj key)\<rparr>]\<rparr>)"
      and "x \<in> set (Set_of (Object_keys oldObj @ Object_keys newObj))" for f x c
    using that 2 [of x c] by (simp add: push_as_append)
  show ?case
    unfolding compareObjects.simps [of oldObj newObj curPath changes]
      compareObjects.simps [of oldObj newObj curPath empty_changes]
    by (rule fold_append_only') (rule step [OF refl])
next
  case (3 oldArr newArr curPath changes)
  have step: "f x c = chg_append c (f x empty_changes)"
    if "f = (\<lambda>i changes.
        if i < length oldArr \<and> i < length newArr then
          deepCompare (oldArr ! i) (newArr ! i) (indexPath curPath i) changes
        else if i < length oldArr then
          changes\<lparr>removed := removed changes @
            [\<lparr>path = indexPath curPath i, val = oldArr ! i, type = getType (oldArr ! i)\<rparr>]\<rparr>
        else
          changes\<lparr>added := added changes @
            [\<lparr>path = indexPath curPath i, val = newArr ! i, type = getType (newArr ! i)\<rparr>]\<rparr>)"
      and "x \<in> set [0..<max (length oldArr) (length newArr)]" for f x c
    using that 3 [of x c] by (simp add: push_as_append)
  show ?case
    unfolding compareArrays.simps [of oldArr newArr curPath changes]
      compareArrays.simps [of oldArr newArr curPath empty_changes]
    by (rule fold_append_only') (rule step [OF refl])
qed

lemmas eval_simps = compare_def deepCompare.simps compareObjects.simps compareArrays.simps
  Set_of_def Object_keys_def Array_includes_def get_prop_def keyPath_def indexPath_def
  String_nat.simps empty_changes_def digit_def

lemma fold_push: "fold (\<lambda>x qs. qs @ [f x]) xs acc = acc @ map f xs"
  by (induction xs arbitrary: acc) simp_all

section \<open>The loops as concatenations\<close>

text \<open>
  The result of either loop is its accumulator followed by the contributions of the keys, or
  of the indices, in the order of the iteration.
\<close>

lemma fold_push_added:
  "fold (\<lambda>i (c::'n changes). c\<lparr>added := added c @ [g i]\<rparr>) xs c = c\<lparr>added := added c @ map g xs\<rparr>"
  by (induction xs arbitrary: c) simp_all

lemma fold_push_removed:
  "fold (\<lambda>i (c::'n changes). c\<lparr>removed := removed c @ [g i]\<rparr>) xs c = c\<lparr>removed := removed c @ map g xs\<rparr>"
  by (induction xs arbitrary: c) simp_all

lemma compareArrays_split:
  "compareArrays oldArr newArr p ch =
     (let k = min (length oldArr) (length newArr);
          c = fold (\<lambda>i. deepCompare (oldArr ! i) (newArr ! i) (indexPath p i)) [0..<k] ch
      in c\<lparr>removed := removed c @
             map (\<lambda>i. \<lparr>path = indexPath p i, val = oldArr ! i, type = getType (oldArr ! i)\<rparr>)
               [k..<length oldArr],
           added := added c @
             map (\<lambda>i. \<lparr>path = indexPath p i, val = newArr ! i, type = getType (newArr ! i)\<rparr>)
               [k..<length newArr]\<rparr>)"
proof -
  define m n k where "m = length oldArr" and "n = length newArr" and "k = min m n"
  define f where "f = (\<lambda>i changes.
        if i < length oldArr \<and> i < length newArr then
          deepCompare (oldArr ! i) (newArr ! i) (indexPath p i) changes
        else if i < length oldArr then
          changes\<lparr>removed := removed changes @
            [\<lparr>path = indexPath p i, val = oldArr ! i, type = getType (oldArr ! i)\<rparr>]\<rparr>
        else
          changes\<lparr>added := added changes @
            [\<lparr>path = indexPath p i, val = newArr ! i, type = getType (newArr ! i)\<rparr>]\<rparr>)"
  define c where "c = fold (\<lambda>i. deepCompare (oldArr ! i) (newArr ! i) (indexPath p i)) [0..<k] ch"
  have split: "[0..<max m n] = [0..<k] @ [k..<max m n]"
    unfolding k_def by (metis le_iff_add min.cobounded1 max.coboundedI1 upt_add_eq_append zero_le)
  have low: "fold f [0..<k] ch = c"
    unfolding c_def by (rule fold_cong) (auto simp: f_def k_def m_def n_def)
  have high: "fold f [k..<max m n] c =
      c\<lparr>removed := removed c @
             map (\<lambda>i. \<lparr>path = indexPath p i, val = oldArr ! i, type = getType (oldArr ! i)\<rparr>) [k..<m],
         added := added c @
             map (\<lambda>i. \<lparr>path = indexPath p i, val = newArr ! i, type = getType (newArr ! i)\<rparr>) [k..<n]\<rparr>"
  proof (cases "m \<le> n")
    case True
    then have k: "k = m" "max m n = n" by (simp_all add: k_def)
    have "fold f [m..<n] c = fold (\<lambda>i c. c\<lparr>added := added c @
        [\<lparr>path = indexPath p i, val = newArr ! i, type = getType (newArr ! i)\<rparr>]\<rparr>) [m..<n] c"
      by (rule fold_cong) (auto simp: f_def n_def m_def)
    then show ?thesis by (simp add: k fold_push_added)
  next
    case False
    then have k: "k = n" "max m n = m" by (simp_all add: k_def)
    have "fold f [n..<m] c = fold (\<lambda>i c. c\<lparr>removed := removed c @
        [\<lparr>path = indexPath p i, val = oldArr ! i, type = getType (oldArr ! i)\<rparr>]\<rparr>) [n..<m] c"
      by (rule fold_cong) (auto simp: f_def n_def m_def)
    then show ?thesis by (simp add: k fold_push_removed)
  qed
  have "compareArrays oldArr newArr p ch = fold f [0..<max m n] ch"
    by (simp add: compareArrays.simps f_def m_def n_def)
  also have "\<dots> = fold f [k..<max m n] (fold f [0..<k] ch)"
    by (subst split) simp
  also have "\<dots> = fold f [k..<max m n] c"
    by (simp only: low)
  also note high
  finally show ?thesis
    unfolding Let_def c_def k_def m_def n_def .
qed


lemma Set_of_fold_set:
  "set (fold (\<lambda>x s. if x \<in> set s then s else s @ [x]) xs acc) = set acc \<union> set xs"
  by (induction xs arbitrary: acc) auto

lemma Set_of_fold_distinct:
  "distinct acc \<Longrightarrow> distinct (fold (\<lambda>x s. if x \<in> set s then s else s @ [x]) xs acc)"
  by (induction xs arbitrary: acc) auto

lemma set_Set_of [simp]: "set (Set_of xs) = set xs"
  by (simp add: Set_of_def Set_of_fold_set)

lemma distinct_Set_of [simp]: "distinct (Set_of xs)"
  by (simp add: Set_of_def Set_of_fold_distinct)

lemma Set_of_fold_known:
  "set xs \<subseteq> set acc \<Longrightarrow> fold (\<lambda>x s. if x \<in> set s then s else s @ [x]) xs acc = acc"
  by (induction xs arbitrary: acc) auto

lemma Set_of_fold_fresh:
  "distinct xs \<Longrightarrow> set xs \<inter> set acc = {} \<Longrightarrow>
   fold (\<lambda>x s. if x \<in> set s then s else s @ [x]) xs acc = acc @ xs"
  by (induction xs arbitrary: acc) auto

lemma Set_of_twice: "distinct xs \<Longrightarrow> Set_of (xs @ xs) = xs"
  by (simp add: Set_of_def Set_of_fold_fresh Set_of_fold_known)

lemma compareObjects_concat:
  "compareObjects oldObj newObj p ch =
     chg_append ch (chg_concat (map (key_changes oldObj newObj p)
       (Set_of (Object_keys oldObj @ Object_keys newObj))))"
proof -
  have "compareObjects oldObj newObj p ch =
      chg_append ch (chg_concat (map (\<lambda>key. (\<lambda>key changes.
        if Array_includes (Object_keys oldObj) key \<and> Array_includes (Object_keys newObj) key then
          deepCompare (get_prop oldObj key) (get_prop newObj key) (keyPath p key) changes
        else if Array_includes (Object_keys oldObj) key then
          changes\<lparr>removed := removed changes @
            [\<lparr>path = keyPath p key, val = get_prop oldObj key, type = getType (get_prop oldObj key)\<rparr>]\<rparr>
        else
          changes\<lparr>added := added changes @
            [\<lparr>path = keyPath p key, val = get_prop newObj key, type = getType (get_prop newObj key)\<rparr>]\<rparr>)
        key empty_changes) (Set_of (Object_keys oldObj @ Object_keys newObj))))"
    unfolding compareObjects.simps [of oldObj newObj p ch]
    by (rule fold_append_only) (simp add: push_as_append append_only(1) [symmetric])
  also have "\<dots> = chg_append ch (chg_concat (map (key_changes oldObj newObj p)
       (Set_of (Object_keys oldObj @ Object_keys newObj))))"
    by (rule arg_cong [where f = "\<lambda>f. chg_append ch (chg_concat (map f _))"], rule ext)
      (simp add: key_changes_def Array_includes_def empty_changes_def)
  finally show ?thesis .
qed

lemma compareArrays_concat:
  "compareArrays oldArr newArr p ch =
     chg_append ch (chg_concat (map (index_changes oldArr newArr p)
       [0..<max (length oldArr) (length newArr)]))"
proof -
  have "compareArrays oldArr newArr p ch =
      chg_append ch (chg_concat (map (\<lambda>i. (\<lambda>i changes.
        if i < length oldArr \<and> i < length newArr then
          deepCompare (oldArr ! i) (newArr ! i) (indexPath p i) changes
        else if i < length oldArr then
          changes\<lparr>removed := removed changes @
            [\<lparr>path = indexPath p i, val = oldArr ! i, type = getType (oldArr ! i)\<rparr>]\<rparr>
        else
          changes\<lparr>added := added changes @
            [\<lparr>path = indexPath p i, val = newArr ! i, type = getType (newArr ! i)\<rparr>]\<rparr>)
        i empty_changes) [0..<max (length oldArr) (length newArr)]))"
    unfolding compareArrays.simps [of oldArr newArr p ch]
    by (rule fold_append_only) (simp add: push_as_append append_only(1) [symmetric])
  also have "\<dots> = chg_append ch (chg_concat (map (index_changes oldArr newArr p)
       [0..<max (length oldArr) (length newArr)]))"
    by (rule arg_cong [where f = "\<lambda>f. chg_append ch (chg_concat (map f _))"], rule ext)
      (simp add: index_changes_def empty_changes_def)
  finally show ?thesis .
qed

lemma chg_concat_sets:
  "set (added (chg_concat cs)) = (\<Union>c\<in>set cs. set (added c))"
  "set (removed (chg_concat cs)) = (\<Union>c\<in>set cs. set (removed c))"
  "set (modified (chg_concat cs)) = (\<Union>c\<in>set cs. set (modified c))"
  "set (unchanged (chg_concat cs)) = (\<Union>c\<in>set cs. set (unchanged c))"
  by (induction cs) (simp_all add: empty_changes_def)

section \<open>Type-change short-circuit\<close>

text \<open>
  Claim C2, as the code has it. \<open>deepCompare\<close> tests for \<^verbatim>\<open>null\<close> before it compares the two
  types, so a \<^verbatim>\<open>null\<close> against a value of another kind is reported as Added or Removed. When
  neither side is \<^verbatim>\<open>null\<close> and the two kinds differ, the call pushes exactly one Modified record
  at its path, with both kinds, and returns: nothing below that path is visited. In particular
  comparing \<^verbatim>\<open>{a:{x:n}}\<close> with \<^verbatim>\<open>{a:[n]}\<close> yields the single record at \<^verbatim>\<open>a\<close> with \<^verbatim>\<open>oldType\<close> object
  and \<^verbatim>\<open>newType\<close> array, and no record at \<^verbatim>\<open>a.x\<close> or \<^verbatim>\<open>a[0]\<close>.
\<close>

theorem C2_type_change_short_circuit:
  assumes "oldVal \<noteq> JNull" and "newVal \<noteq> JNull" and "getType oldVal \<noteq> getType newVal"
  shows "deepCompare oldVal newVal p ch =
           ch\<lparr>modified := modified ch @
             [TypeChange p oldVal newVal (getType oldVal) (getType newVal)]\<rparr>
         \<and> compare (JObj [(''a'', JObj [(''x'', JNum n)])]) (JObj [(''a'', JArr [JNum n])]) =
           \<lparr>added = [], removed = [],
            modified = [TypeChange ''a'' (JObj [(''x'', JNum n)]) (JArr [JNum n])
                          ''object'' ''array''],
            unchanged = []\<rparr>"
proof
  show "deepCompare oldVal newVal p ch =
      ch\<lparr>modified := modified ch @
        [TypeChange p oldVal newVal (getType oldVal) (getType newVal)]\<rparr>"
    using assms by (simp add: deepCompare.simps)
  show "compare (JObj [(''a'', JObj [(''x'', JNum n)])]) (JObj [(''a'', JArr [JNum n])]) =
      \<lparr>added = [], removed = [],
       modified = [TypeChange ''a'' (JObj [(''x'', JNum n)]) (JArr [JNum n]) ''object'' ''array''],
       unchanged = []\<rparr>"
    by (simp add: eval_simps)
qed

theorem C2_type_change_witness:
  "JObj [(''x'', JNum (1::int))] \<noteq> JNull \<and> JArr [JNum (1::int)] \<noteq> JNull \<and>
   getType (JObj [(''x'', JNum (1::int))]) \<noteq> getType (JArr [JNum (1::int)]) \<and>
   deepCompare (JObj [(''x'', JNum (1::int))]) (JArr [JNum 1]) ''a'' empty_changes =
     \<lparr>added = [], removed = [],
      modified = [TypeChange ''a'' (JObj [(''x'', JNum 1)]) (JArr [JNum 1]) ''object'' ''array''],
      unchanged = []\<rparr>"
  using C2_type_change_short_circuit
    [of "JObj [(''x'', JNum (1::int))]" "JArr [JNum 1]" "''a''" empty_changes 1]
  by (auto simp: empty_changes_def)

text \<open>
  The claim as stated fails where one side is \<^verbatim>\<open>null\<close>: the kinds of \<^verbatim>\<open>null\<close> and \<^verbatim>\<open>{}\<close> differ, and
  the result has one Added record and no Modified record.
\<close>

theorem C2_null_kind_counterexample:
  "getType (JNull :: int json) \<noteq> getType (JObj []) \<and>
   compare (JNull :: int json) (JObj []) =
     \<lparr>added = [\<lparr>path = [], val = JObj [], type = ''object''\<rparr>], removed = [],
      modified = [], unchanged = []\<rparr>"
  by (simp add: eval_simps)

section \<open>Statistics and transformation descriptors\<close>

text \<open>
  Claim C5. For every result \<open>r\<close>, the \<^verbatim>\<open>totalChanges\<close> of \<^verbatim>\<open>calculateStats\<close> is the sum of the
  lengths of \<open>added r\<close>, \<open>removed r\<close> and \<open>modified r\<close>; the unchanged records are not counted,
  so replacing them leaves \<^verbatim>\<open>totalChanges\<close> as it is.
\<close>

theorem C5_statistics_identity:
  "totalChanges (calculateStats r) = length (added r) + length (removed r) + length (modified r)
   \<and> totalChanges (calculateStats (r\<lparr>unchanged := u\<rparr>)) = totalChanges (calculateStats r)"
  by (simp add: calculateStats_def)

text \<open>
  Claim C9. \<^verbatim>\<open>generateJSONataQueries\<close> yields one query per record of \<open>added r\<close>, then one per
  record of \<open>removed r\<close>, then one per record of \<open>modified r\<close>, each group in the order of its
  sequence: the types are addition, deletion and modification, the paths and values are those
  of the records. The unchanged records yield nothing, and the number of queries is
  \<^verbatim>\<open>totalChanges\<close>.
\<close>

theorem C9_descriptor_projection:
  "map q_type (generateJSONataQueries sf ts r) =
     replicate (length (added r)) ''addition'' @ replicate (length (removed r)) ''deletion'' @
     replicate (length (modified r)) ''modification''
   \<and> map q_path (generateJSONataQueries sf ts r) =
     map path (added r) @ map path (removed r) @ map mpath (modified r)
   \<and> map (\<lambda>q. (q_value q, q_oldValue q, q_newValue q)) (generateJSONataQueries sf ts r) =
     map (\<lambda>c. (Some (val c), None, None)) (added r) @
     map (\<lambda>c. (None, Some (val c), None)) (removed r) @
     map (\<lambda>m. (None, Some (oldValue m), Some (newValue m))) (modified r)
   \<and> length (generateJSONataQueries sf ts r) = totalChanges (calculateStats r)
   \<and> generateJSONataQueries sf ts (r\<lparr>unchanged := u\<rparr>) = generateJSONataQueries sf ts r"
  by (simp add: generateJSONataQueries_def fold_push calculateStats_def map_replicate_const
      comp_def)

section \<open>Null and absent values\<close>

text \<open>
  Claim C1, as the code has it. \<^verbatim>\<open>null\<close> is special only where both sides are present, that
  is in \<open>deepCompare\<close>: two \<^verbatim>\<open>null\<close>s give one Unchanged record with value \<^verbatim>\<open>null\<close>, a \<^verbatim>\<open>null\<close>
  old side gives one Added record with the new value, a \<^verbatim>\<open>null\<close> new side one Removed record with
  the old value. A key that only the old object has, or an index that only the old array has,
  is reported Removed with the old value, and one that only the new side has is reported Added
  with the new value, whether or not that value is \<^verbatim>\<open>null\<close>.
\<close>

theorem C1_null_and_absent:
  "deepCompare JNull JNull p ch =
     ch\<lparr>unchanged := unchanged ch @ [\<lparr>path = p, val = JNull, type = ''null''\<rparr>]\<rparr>
   \<and> (newVal \<noteq> JNull \<longrightarrow> deepCompare JNull newVal p ch =
     ch\<lparr>added := added ch @ [\<lparr>path = p, val = newVal, type = getType newVal\<rparr>]\<rparr>)
   \<and> (oldVal \<noteq> JNull \<longrightarrow> deepCompare oldVal JNull p ch =
     ch\<lparr>removed := removed ch @ [\<lparr>path = p, val = oldVal, type = getType oldVal\<rparr>]\<rparr>)
   \<and> (key \<in> set (Object_keys oldObj) \<and> key \<notin> set (Object_keys newObj) \<longrightarrow>
     \<lparr>path = keyPath p key, val = get_prop oldObj key, type = getType (get_prop oldObj key)\<rparr>
       \<in> set (removed (compareObjects oldObj newObj p ch)))
   \<and> (key \<notin> set (Object_keys oldObj) \<and> key \<in> set (Object_keys newObj) \<longrightarrow>
     \<lparr>path = keyPath p key, val = get_prop newObj key, type = getType (get_prop newObj key)\<rparr>
       \<in> set (added (compareObjects oldObj newObj p ch)))
   \<and> (length newArr \<le> i \<and> i < length oldArr \<longrightarrow>
     \<lparr>path = indexPath p i, val = oldArr ! i, type = getType (oldArr ! i)\<rparr>
       \<in> set (removed (compareArrays oldArr newArr p ch)))
   \<and> (length oldArr \<le> i \<and> i < length newArr \<longrightarrow>
     \<lparr>path = indexPath p i, val = newArr ! i, type = getType (newArr ! i)\<rparr>
       \<in> set (added (compareArrays oldArr newArr p ch)))"
proof (intro conjI impI)
  show "deepCompare JNull JNull p ch =
      ch\<lparr>unchanged := unchanged ch @ [\<lparr>path = p, val = JNull, type = ''null''\<rparr>]\<rparr>"
    by (simp add: deepCompare.simps)
  show "deepCompare JNull newVal p ch =
      ch\<lparr>added := added ch @ [\<lparr>path = p, val = newVal, type = getType newVal\<rparr>]\<rparr>"
    if "newVal \<noteq> JNull"
    using that by (simp add: deepCompare.simps)
  show "deepCompare oldVal JNull p ch =
      ch\<lparr>removed := removed ch @ [\<lparr>path = p, val = oldVal, type = getType oldVal\<rparr>]\<rparr>"
    if "oldVal \<noteq> JNull"
    using that by (simp add: deepCompare.simps)
  show "\<lparr>path = keyPath p key, val = get_prop oldObj key, type = getType (get_prop oldObj key)\<rparr>
      \<in> set (removed (compareObjects oldObj newObj p ch))"
    if "key \<in> set (Object_keys oldObj) \<and> key \<notin> set (Object_keys newObj)"
  proof -
    have "\<lparr>path = keyPath p key, val = get_prop oldObj key, type = getType (get_prop oldObj key)\<rparr>
        \<in> set (removed (key_changes oldObj newObj p key))"
      using that by (simp add: key_changes_def empty_changes_def)
    then show ?thesis
      using that by (auto simp: compareObjects_concat chg_concat_sets)
  qed
  show "\<lparr>path = keyPath p key, val = get_prop newObj key, type = getType (get_prop newObj key)\<rparr>
      \<in> set (added (compareObjects oldObj newObj p ch))"
    if "key \<notin> set (Object_keys oldObj) \<and> key \<in> set (Object_keys newObj)"
  proof -
    have "\<lparr>path = keyPath p key, val = get_prop newObj key, type = getType (get_prop newObj key)\<rparr>
        \<in> set (added (key_changes oldObj newObj p key))"
      using that by (simp add: key_changes_def empty_changes_def)
    then show ?thesis
      using that by (auto simp: compareObjects_concat chg_concat_sets)
  qed
  show "\<lparr>path = indexPath p i, val = oldArr ! i, type = getType (oldArr ! i)\<rparr>
      \<in> set (removed (compareArrays oldArr newArr p ch))"
    if "length newArr \<le> i \<and> i < length oldArr"
    using that by (simp add: compareArrays_split Let_def)
  show "\<lparr>path = indexPath p i, val = newArr ! i, type = getType (newArr ! i)\<rparr>
      \<in> set (added (compareArrays oldArr newArr p ch))"
    if "length oldArr \<le> i \<and> i < length newArr"
    using that by (simp add: compareArrays_split Let_def)
qed

text \<open>
  The hypotheses hold at \<^verbatim>\<open>null\<close> against \<^verbatim>\<open>5\<close>, at \<^verbatim>\<open>{a:null}\<close> against \<^verbatim>\<open>{}\<close> and at \<^verbatim>\<open>[null]\<close>
  against \<^verbatim>\<open>[]\<close>, in both directions.
\<close>

theorem C1_null_and_absent_witness:
  "JNum (5::int) \<noteq> JNull
   \<and> deepCompare JNull (JNum (5::int)) [] empty_changes =
       empty_changes\<lparr>added := [\<lparr>path = [], val = JNum 5, type = ''primitive''\<rparr>]\<rparr>
   \<and> deepCompare (JNum (5::int)) JNull [] empty_changes =
       empty_changes\<lparr>removed := [\<lparr>path = [], val = JNum 5, type = ''primitive''\<rparr>]\<rparr>
   \<and> ''a'' \<in> set (Object_keys [(''a'', JNull :: int json)])
   \<and> ''a'' \<notin> set (Object_keys ([] :: (string \<times> int json) list))
   \<and> \<lparr>path = ''a'', val = JNull :: int json, type = ''null''\<rparr>
        \<in> set (removed (compareObjects [(''a'', JNull)] [] [] empty_changes))
   \<and> \<lparr>path = ''a'', val = JNull :: int json, type = ''null''\<rparr>
        \<in> set (added (compareObjects [] [(''a'', JNull)] [] empty_changes))
   \<and> length ([] :: int json list) \<le> 0 \<and> 0 < length [JNull :: int json]
   \<and> \<lparr>path = ''[0]'', val = JNull :: int json, type = ''null''\<rparr>
        \<in> set (removed (compareArrays [JNull] [] [] empty_changes))
   \<and> \<lparr>path = ''[0]'', val = JNull :: int json, type = ''null''\<rparr>
        \<in> set (added (compareArrays [] [JNull] [] empty_changes))"
  using C1_null_and_absent [where p = "[]" and ch = empty_changes and newVal = "JNum (5::int)"
      and oldVal = "JNum 5" and key = "''a''" and oldObj = "[(''a'', JNull)]" and newObj = "[]"
      and oldArr = "[JNull]" and newArr = "[]" and i = 0]
    C1_null_and_absent [where p = "[]" and ch = empty_changes and newVal = "JNum (5::int)"
      and oldVal = "JNum 5" and key = "''a''" and oldObj = "[]" and newObj = "[(''a'', JNull)]"
      and oldArr = "[]" and newArr = "[JNull]" and i = 0]
  by (simp add: Object_keys_def get_prop_def keyPath_def indexPath_def String_nat.simps digit_def
      empty_changes_def)

text \<open>
  The claim as stated fails where one side is \<^verbatim>\<open>null\<close> and the other absent: at path \<^verbatim>\<open>a\<close> of
  \<^verbatim>\<open>{a:null}\<close> against \<^verbatim>\<open>{}\<close> both sides are null or absent, and the record is a Removed one;
  there is no Unchanged record.
\<close>

theorem C1_absent_null_counterexample:
  "compare (JObj [(''a'', JNull :: int json)]) (JObj []) =
     \<lparr>added = [], removed = [\<lparr>path = ''a'', val = JNull, type = ''null''\<rparr>],
      modified = [], unchanged = []\<rparr>"
  by (simp add: eval_simps)

section \<open>Positional array comparison\<close>

text \<open>
  Claim C8. \<^verbatim>\<open>compareArrays\<close> compares the elements at the indices both arrays have, in
  increasing order and at the path \<^verbatim>\<open>path[i]\<close>, then reports every further element of the old
  array as Removed and every further element of the new array as Added, at \<^verbatim>\<open>path[i]\<close> too.
  Comparing \<^verbatim>\<open>{a:[n1,n2,n3]}\<close> with \<^verbatim>\<open>{a:[n1,n2]}\<close> yields the Removed record at \<^verbatim>\<open>a[2]\<close>, no
  Modified record, and the Unchanged records at \<^verbatim>\<open>a[0]\<close> and \<^verbatim>\<open>a[1]\<close>.
\<close>

theorem C8_positional_arrays:
  "compareArrays oldArr newArr p ch =
     (let k = min (length oldArr) (length newArr);
          c = fold (\<lambda>i. deepCompare (oldArr ! i) (newArr ! i) (indexPath p i)) [0..<k] ch
      in c\<lparr>removed := removed c @
             map (\<lambda>i. \<lparr>path = indexPath p i, val = oldArr ! i, type = getType (oldArr ! i)\<rparr>)
               [k..<length oldArr],
           added := added c @
             map (\<lambda>i. \<lparr>path = indexPath p i, val = newArr ! i, type = getType (newArr ! i)\<rparr>)
               [k..<length newArr]\<rparr>)
   \<and> compare (JObj [(''a'', JArr [JNum n1, JNum n2, JNum n3])])
         (JObj [(''a'', JArr [JNum n1, JNum n2])]) =
       \<lparr>added = [],
        removed = [\<lparr>path = ''a[2]'', val = JNum n3, type = ''primitive''\<rparr>],
        modified = [],
        unchanged =
          [\<lparr>path = ''a[0]'', val = JNum n1, type = ''primitive''\<rparr>,
           \<lparr>path = ''a[1]'', val = JNum n2, type = ''primitive''\<rparr>]\<rparr>"
proof
  show "compareArrays oldArr newArr p ch =
     (let k = min (length oldArr) (length newArr);
          c = fold (\<lambda>i. deepCompare (oldArr ! i) (newArr ! i) (indexPath p i)) [0..<k] ch
      in c\<lparr>removed := removed c @
             map (\<lambda>i. \<lparr>path = indexPath p i, val = oldArr ! i, type = getType (oldArr ! i)\<rparr>)
               [k..<length oldArr],
           added := added c @
             map (\<lambda>i. \<lparr>path = indexPath p i, val = newArr ! i, type = getType (newArr ! i)\<rparr>)
               [k..<length newArr]\<rparr>)"
    by (rule compareArrays_split)
  show "compare (JObj [(''a'', JArr [JNum n1, JNum n2, JNum n3])])
         (JObj [(''a'', JArr [JNum n1, JNum n2])]) =
       \<lparr>added = [],
        removed = [\<lparr>path = ''a[2]'', val = JNum n3, type = ''primitive''\<rparr>],
        modified = [],
        unchanged =
          [\<lparr>path = ''a[0]'', val = JNum n1, type = ''primitive''\<rparr>,
           \<lparr>path = ''a[1]'', val = JNum n2, type = ''primitive''\<rparr>]\<rparr>"
    by (simp add: eval_simps)
qed

section \<open>Reflexivity\<close>

lemma chg_concat_unchanged:
  "chg_concat (map (\<lambda>x. empty_changes\<lparr>unchanged := f x\<rparr>) xs) =
     empty_changes\<lparr>unchanged := concat (map f xs)\<rparr>"
  by (induction xs) (simp_all add: chg_append_def empty_changes_def)

lemma get_prop_distinct:
  "distinct (map fst kvs) \<Longrightarrow> kv \<in> set kvs \<Longrightarrow> get_prop kvs (fst kv) = snd kv"
  by (cases kv) (simp add: get_prop_def)

lemma deepCompare_same:
  "well_formed X \<Longrightarrow> deepCompare X X p empty_changes = empty_changes\<lparr>unchanged := leaves X p\<rparr>"
proof (induction X arbitrary: p)
  case JNull
  show ?case by (simp add: deepCompare.simps empty_changes_def)
next
  case (JBool b)
  show ?case by (simp add: deepCompare.simps empty_changes_def)
next
  case (JNum n)
  show ?case by (simp add: deepCompare.simps empty_changes_def)
next
  case (JStr s)
  show ?case by (simp add: deepCompare.simps empty_changes_def)
next
  case (JArr xs)
  have "index_changes xs xs p i = empty_changes\<lparr>unchanged := leaves (xs ! i) (indexPath p i)\<rparr>"
    if "i \<in> set [0..<length xs]" for i
    using that JArr.IH [of "xs ! i" "indexPath p i"] JArr.prems
    by (simp add: index_changes_def list_all_length)
  then have m: "map (index_changes xs xs p) [0..<length xs] =
      map (\<lambda>i. empty_changes\<lparr>unchanged := leaves (xs ! i) (indexPath p i)\<rparr>) [0..<length xs]"
    by (rule map_cong [OF refl])
  have "compareArrays xs xs p empty_changes =
      chg_concat (map (index_changes xs xs p) [0..<length xs])"
    by (simp add: compareArrays_concat)
  also have "\<dots> = empty_changes\<lparr>unchanged := leaves (JArr xs) p\<rparr>"
    by (simp only: m chg_concat_unchanged leaves.simps)
  finally show ?case
    by (simp add: deepCompare.simps)
next
  case (JObj kvs)
  have dist: "distinct (map fst kvs)"
    using JObj.prems by simp
  have "key_changes kvs kvs p (fst kv) =
      empty_changes\<lparr>unchanged := leaves (snd kv) (keyPath p (fst kv))\<rparr>"
    if "kv \<in> set kvs" for kv
  proof -
    have "well_formed (snd kv)"
      using that JObj.prems by (simp add: list_all_iff)
    moreover have "snd kv \<in> Basic_BNFs.snds kv"
      by (cases kv) simp
    ultimately have "deepCompare (snd kv) (snd kv) (keyPath p (fst kv)) empty_changes =
        empty_changes\<lparr>unchanged := leaves (snd kv) (keyPath p (fst kv))\<rparr>"
      using JObj.IH [OF that] by blast
    then show ?thesis
      using that by (simp add: key_changes_def Object_keys_def get_prop_distinct [OF dist])
  qed
  then have m: "map (\<lambda>kv. key_changes kvs kvs p (fst kv)) kvs =
      map (\<lambda>kv. empty_changes\<lparr>unchanged := leaves (snd kv) (keyPath p (fst kv))\<rparr>) kvs"
    by (rule map_cong [OF refl])
  have "compareObjects kvs kvs p empty_changes =
      chg_concat (map (\<lambda>kv. key_changes kvs kvs p (fst kv)) kvs)"
    by (simp add: compareObjects_concat Object_keys_def Set_of_twice [OF dist] comp_def)
  also have "\<dots> = empty_changes\<lparr>unchanged := leaves (JObj kvs) p\<rparr>"
    by (simp only: m chg_concat_unchanged leaves.simps)
  finally show ?case
    by (simp add: deepCompare.simps)
qed


text \<open>
  Claim C7. Comparing a value with itself yields no Added, Removed or Modified record, and the
  Unchanged records are exactly the leaves of the value, one record per leaf and in traversal
  order; comparing \<^verbatim>\<open>{a:n}\<close> with itself yields the single Unchanged record at \<^verbatim>\<open>a\<close>.
\<close>

theorem C7_reflexivity:
  assumes "well_formed X"
  shows "compare X X = \<lparr>added = [], removed = [], modified = [], unchanged = leaves X []\<rparr>
         \<and> compare (JObj [(''a'', JNum n)]) (JObj [(''a'', JNum n)]) =
           \<lparr>added = [], removed = [], modified = [],
            unchanged = [\<lparr>path = ''a'', val = JNum n, type = ''primitive''\<rparr>]\<rparr>"
proof
  show "compare X X = \<lparr>added = [], removed = [], modified = [], unchanged = leaves X []\<rparr>"
    using deepCompare_same [OF assms, of "[]"] by (simp add: compare_def empty_changes_def)
  show "compare (JObj [(''a'', JNum n)]) (JObj [(''a'', JNum n)]) =
      \<lparr>added = [], removed = [], modified = [],
       unchanged = [\<lparr>path = ''a'', val = JNum n, type = ''primitive''\<rparr>]\<rparr>"
    by (simp add: eval_simps)
qed

theorem C7_reflexivity_witness:
  "well_formed (JObj [(''a'', JNum (1::int)), (''b'', JArr [JNull, JStr ''x'', JObj []])])
   \<and> compare (JObj [(''a'', JNum (1::int)), (''b'', JArr [JNull, JStr ''x'', JObj []])])
         (JObj [(''a'', JNum 1), (''b'', JArr [JNull, JStr ''x'', JObj []])]) =
       \<lparr>added = [], removed = [], modified = [],
        unchanged = [\<lparr>path = ''a'', val = JNum 1, type = ''primitive''\<rparr>,
                     \<lparr>path = ''b[0]'', val = JNull, type = ''null''\<rparr>,
                     \<lparr>path = ''b[1]'', val = JStr ''x'', type = ''primitive''\<rparr>]\<rparr>"
  using C7_reflexivity [of "JObj [(''a'', JNum (1::int)), (''b'', JArr [JNull, JStr ''x'', JObj []])]" 1]
  by (auto simp: keyPath_def indexPath_def String_nat.simps digit_def)

section \<open>Antisymmetry\<close>

lemma same_sets_concat:
  assumes "set xs = set ys" and "\<And>x. x \<in> set xs \<Longrightarrow> same_sets (f x) (mirror (g x))"
  shows "same_sets (chg_concat (map f xs)) (mirror (chg_concat (map g ys)))"
  using assms unfolding same_sets_def mirror_def
  by (simp add: chg_concat_sets image_UN)

lemma same_sets_leaf:
  assumes "getType X \<noteq> ''object''" and "getType X \<noteq> ''array''"
  shows "same_sets (deepCompare Y X p empty_changes) (mirror (deepCompare X Y p empty_changes))"
  using assms
  by (cases "getType X = getType Y")
    (auto simp: deepCompare.simps [of X Y] deepCompare.simps [of Y X] same_sets_def mirror_def
      empty_changes_def)

lemma getType_object: "getType X = ''object'' \<longleftrightarrow> (\<exists>kvs. X = JObj kvs)"
  by (cases X) simp_all

lemma getType_array: "getType X = ''array'' \<longleftrightarrow> (\<exists>xs. X = JArr xs)"
  by (cases X) simp_all

lemma same_sets_mismatch:
  assumes "getType X \<noteq> getType Y"
  shows "same_sets (deepCompare Y X p empty_changes) (mirror (deepCompare X Y p empty_changes))"
  using assms
  by (auto simp: deepCompare.simps [of X Y] deepCompare.simps [of Y X] same_sets_def mirror_def
      empty_changes_def)

lemma antisymmetry_gen:
  "same_sets (deepCompare Y X p empty_changes) (mirror (deepCompare X Y p empty_changes))"
proof (induction X arbitrary: Y p)
  case (JArr xs)
  show ?case
  proof (cases Y)
    case (JArr ys)
    have "same_sets (index_changes ys xs p i) (mirror (index_changes xs ys p i))"
      if "i \<in> set [0..<max (length ys) (length xs)]" for i
    proof (cases "i < length xs \<and> i < length ys")
      case True
      then show ?thesis
        using JArr.IH [of "xs ! i" "ys ! i" "indexPath p i"] by (simp add: index_changes_def)
    next
      case False
      then show ?thesis
        using that by (auto simp: index_changes_def same_sets_def mirror_def empty_changes_def)
    qed
    then have "same_sets (chg_concat (map (index_changes ys xs p) [0..<max (length ys) (length xs)]))
        (mirror (chg_concat (map (index_changes xs ys p) [0..<max (length xs) (length ys)])))"
      by (intro same_sets_concat) (simp_all add: max.commute)
    then show ?thesis
      using JArr by (simp add: deepCompare.simps compareArrays_concat)
  qed (simp_all add: same_sets_mismatch)
next
  case (JObj kvs)
  show ?case
  proof (cases Y)
    case (JObj kvs')
    have "same_sets (key_changes kvs' kvs p k) (mirror (key_changes kvs kvs' p k))"
      if "k \<in> set (Set_of (Object_keys kvs' @ Object_keys kvs))" for k
    proof (cases "k \<in> set (Object_keys kvs) \<and> k \<in> set (Object_keys kvs')")
      case True
      then obtain v where "map_of kvs k = Some v"
        by (cases "map_of kvs k") (auto simp: Object_keys_def map_of_eq_None_iff)
      then have "(k, get_prop kvs k) \<in> set kvs"
        by (simp add: get_prop_def map_of_SomeD)
      then show ?thesis
        using True JObj.IH [of "(k, get_prop kvs k)" "get_prop kvs k" "get_prop kvs' k" "keyPath p k"]
        by (simp add: key_changes_def)
    next
      case False
      then show ?thesis
        using that
        by (auto simp: key_changes_def same_sets_def mirror_def empty_changes_def)
    qed
    then have "same_sets
        (chg_concat (map (key_changes kvs' kvs p) (Set_of (Object_keys kvs' @ Object_keys kvs))))
        (mirror (chg_concat (map (key_changes kvs kvs' p) (Set_of (Object_keys kvs @ Object_keys kvs')))))"
      by (intro same_sets_concat) auto
    then show ?thesis
      using JObj by (simp add: deepCompare.simps compareObjects_concat)
  qed (simp_all add: same_sets_mismatch)
qed (simp_all add: same_sets_leaf)


text \<open>
  Claim C3. For all values \<open>X\<close> and \<open>Y\<close>, the path and value pairs of the Added records of
  \<open>compare X Y\<close> are those of the Removed records of \<open>compare Y X\<close>, and the other way round;
  the Modified records of the two results have the same paths, with old and new value
  exchanged.
\<close>

theorem C3_antisymmetry:
  "(\<lambda>c. (path c, val c)) ` set (added (compare X Y)) =
     (\<lambda>c. (path c, val c)) ` set (removed (compare Y X))
   \<and> (\<lambda>c. (path c, val c)) ` set (removed (compare X Y)) =
     (\<lambda>c. (path c, val c)) ` set (added (compare Y X))
   \<and> (\<lambda>m. (mpath m, oldValue m, newValue m)) ` set (modified (compare X Y)) =
     (\<lambda>m. (mpath m, newValue m, oldValue m)) ` set (modified (compare Y X))"
proof -
  have sw: "(\<lambda>m. (mpath m, oldValue m, newValue m)) (swap_values m) =
      (mpath m, newValue m, oldValue m)" for m :: "'a modification"
    by (cases m) simp_all
  have "same_sets (compare X Y) (mirror (compare Y X))"
    unfolding compare_def by (rule antisymmetry_gen)
  then have a: "set (added (compare X Y)) = set (removed (compare Y X))"
    and r: "set (removed (compare X Y)) = set (added (compare Y X))"
    and m: "set (modified (compare X Y)) = swap_values ` set (modified (compare Y X))"
    by (simp_all add: same_sets_def mirror_def)
  show ?thesis
    by (simp only: a r m image_image sw)
qed

section \<open>Paths of the records\<close>

subsection \<open>The decimal text of an index\<close>

lemma digit_inj: "d < 10 \<Longrightarrow> e < 10 \<Longrightarrow> digit d = digit e \<Longrightarrow> d = e"
proof -
  assume "d < 10" "e < 10" "digit d = digit e"
  moreover have "distinct ''0123456789''" by simp
  ultimately show "d = e"
    unfolding digit_def by (simp add: nth_eq_iff_index_eq)
qed

lemma digit_is_digit: "d < 10 \<Longrightarrow> digit d \<in> set ''0123456789''"
  unfolding digit_def by (rule nth_mem) simp

lemma String_nat_digits: "set (String_nat n) \<subseteq> set ''0123456789''"
proof (induction n rule: String_nat.induct)
  case (1 n)
  show ?case
  proof (cases "n < 10")
    case True
    then show ?thesis
      using digit_is_digit [of n] by (subst String_nat.simps) simp
  next
    case False
    then show ?thesis
      using 1 digit_is_digit [of "n mod 10"] by (subst String_nat.simps) simp
  qed
qed

lemma String_nat_not_Nil: "String_nat n \<noteq> []"
  by (subst String_nat.simps) simp

lemma String_nat_inj: "String_nat i = String_nat j \<Longrightarrow> i = j"
proof (induction i arbitrary: j rule: String_nat.induct)
  case (1 i)
  show ?case
  proof (cases "i < 10")
    case i: True
    show ?thesis
    proof (cases "j < 10")
      case True
      then show ?thesis
        using i "1.prems" digit_inj [of i j]
        by (simp add: String_nat.simps [of i] String_nat.simps [of j])
    next
      case False
      then show ?thesis
        using i "1.prems" String_nat_not_Nil [of "j div 10"]
        by (simp add: String_nat.simps [of i] String_nat.simps [of j])
    qed
  next
    case i: False
    show ?thesis
    proof (cases "j < 10")
      case True
      then show ?thesis
        using i "1.prems" String_nat_not_Nil [of "i div 10"]
        by (simp add: String_nat.simps [of i] String_nat.simps [of j])
    next
      case False
      then have "String_nat (i div 10) = String_nat (j div 10)" "digit (i mod 10) = digit (j mod 10)"
        using i "1.prems" by (simp_all add: String_nat.simps [of i] String_nat.simps [of j])
      then have "i div 10 = j div 10" "i mod 10 = j mod 10"
        using "1.IH" [OF i] digit_inj [of "i mod 10" "j mod 10"] by simp_all
      then show ?thesis
        by (metis div_mult_mod_eq)
    qed
  qed
qed


subsection \<open>Sibling paths have disjoint extensions\<close>

lemma below_self: "p \<in> below p"
  by (simp add: below_def)

lemma below_keyPath: "below (keyPath p k) \<subseteq> below p"
  by (auto simp: below_def keyPath_def)

lemma below_indexPath: "below (indexPath p i) \<subseteq> below p"
  by (auto simp: below_def indexPath_def)

lemma takeWhile_stop:
  "\<forall>c\<in>set k. P c \<Longrightarrow> s = [] \<or> \<not> P (hd s) \<Longrightarrow> takeWhile P (k @ s) = k"
  by (cases s) (simp_all add: takeWhile_append2)

lemma key_suffix_unique:
  assumes "k @ s = k' @ s'" and "no_special k" and "no_special k'"
    and "s = [] \<or> hd s = CHR ''.'' \<or> hd s = CHR ''[''"
    and "s' = [] \<or> hd s' = CHR ''.'' \<or> hd s' = CHR ''[''"
  shows "k = k'"
proof -
  let ?P = "\<lambda>c. c \<notin> set ''.[]''"
  have "takeWhile ?P (k @ s) = k"
    using assms(2,4) by (intro takeWhile_stop) (auto simp: no_special_def list_all_iff)
  moreover have "takeWhile ?P (k' @ s') = k'"
    using assms(3,5) by (intro takeWhile_stop) (auto simp: no_special_def list_all_iff)
  ultimately show ?thesis
    using assms(1) by simp
qed

lemma below_keyPath_disjoint:
  assumes "k \<noteq> k'" and "k \<noteq> []" and "k' \<noteq> []" and "no_special k" and "no_special k'"
  shows "below (keyPath p k) \<inter> below (keyPath p k') = {}"
proof (rule ccontr)
  assume "below (keyPath p k) \<inter> below (keyPath p k') \<noteq> {}"
  then obtain q where q: "q \<in> below (keyPath p k)" "q \<in> below (keyPath p k')"
    by blast
  define pre where "pre = (if p \<noteq> [] then p @ ''.'' else [])"
  have kp: "keyPath p k = pre @ k" "keyPath p k' = pre @ k'"
    by (simp_all add: keyPath_def pre_def)
  from q(1) assms(2) obtain s where s: "q = pre @ k @ s" "s = [] \<or> hd s = CHR ''.'' \<or> hd s = CHR ''[''"
    by (auto simp: below_def kp)
  from q(2) assms(3) obtain s' where s': "q = pre @ k' @ s'" "s' = [] \<or> hd s' = CHR ''.'' \<or> hd s' = CHR ''[''"
    by (auto simp: below_def kp)
  from s(1) s'(1) have "k @ s = k' @ s'"
    by simp
  then have "k = k'"
    using assms(4,5) s(2) s'(2) by (rule key_suffix_unique)
  with assms(1) show False ..
qed

lemma below_indexPath_disjoint:
  assumes "i \<noteq> j"
  shows "below (indexPath p i) \<inter> below (indexPath p j) = {}"
proof (rule ccontr)
  assume "below (indexPath p i) \<inter> below (indexPath p j) \<noteq> {}"
  then obtain q where q: "q \<in> below (indexPath p i)" "q \<in> below (indexPath p j)"
    by blast
  from q(1) obtain s where s: "q = p @ ''['' @ String_nat i @ '']'' @ s"
    by (auto simp: below_def indexPath_def)
  from q(2) obtain s' where s': "q = p @ ''['' @ String_nat j @ '']'' @ s'"
    by (auto simp: below_def indexPath_def)
  let ?P = "\<lambda>c. c \<noteq> CHR '']''"
  have dig: "\<forall>c\<in>set (String_nat n). ?P c" for n
    using String_nat_digits [of n] by auto
  have "takeWhile ?P (String_nat i @ '']'' @ s) = String_nat i"
    using dig by (intro takeWhile_stop) simp_all
  moreover have "takeWhile ?P (String_nat j @ '']'' @ s') = String_nat j"
    using dig by (intro takeWhile_stop) simp_all
  moreover have "String_nat i @ '']'' @ s = String_nat j @ '']'' @ s'"
    using s s' by simp
  ultimately have "String_nat i = String_nat j"
    by simp
  then have "i = j"
    by (rule String_nat_inj)
  with assms show False ..
qed

lemma mset_all_paths_append:
  "mset (all_paths (chg_append a b)) = mset (all_paths a @ all_paths b)"
  by (simp add: all_paths_def)

lemma all_paths_append:
  "set (all_paths (chg_append a b)) = set (all_paths a) \<union> set (all_paths b)"
  "distinct (all_paths (chg_append a b)) \<longleftrightarrow>
     distinct (all_paths a) \<and> distinct (all_paths b) \<and> set (all_paths a) \<inter> set (all_paths b) = {}"
proof -
  show "set (all_paths (chg_append a b)) = set (all_paths a) \<union> set (all_paths b)"
    using mset_eq_setD [OF mset_all_paths_append [of a b]] by simp
  show "distinct (all_paths (chg_append a b)) \<longleftrightarrow>
     distinct (all_paths a) \<and> distinct (all_paths b) \<and> set (all_paths a) \<inter> set (all_paths b) = {}"
    using mset_eq_imp_distinct_iff [OF mset_all_paths_append [of a b]] by simp
qed

lemma all_paths_empty [simp]: "all_paths empty_changes = []"
  by (simp add: all_paths_def empty_changes_def)

lemma all_paths_concat_set:
  "set (all_paths (chg_concat cs)) = (\<Union>c\<in>set cs. set (all_paths c))"
  by (induction cs) (simp_all add: all_paths_append)

lemma all_paths_concat_distinct:
  assumes "distinct ks"
    and "\<And>k. k \<in> set ks \<Longrightarrow> distinct (all_paths (f k))"
    and "\<And>k. k \<in> set ks \<Longrightarrow> set (all_paths (f k)) \<subseteq> B k"
    and "\<And>k k'. k \<in> set ks \<Longrightarrow> k' \<in> set ks \<Longrightarrow> k \<noteq> k' \<Longrightarrow> B k \<inter> B k' = {}"
  shows "distinct (all_paths (chg_concat (map f ks)))"
  using assms
proof (induction ks)
  case Nil
  show ?case by simp
next
  case (Cons k ks)
  have "set (all_paths (f k)) \<inter> set (all_paths (f k')) = {}" if "k' \<in> set ks" for k'
  proof -
    have "k \<noteq> k'" using that Cons.prems(1) by auto
    then have "B k \<inter> B k' = {}" using that Cons.prems(4) [of k k'] by simp
    moreover have "set (all_paths (f k)) \<subseteq> B k" "set (all_paths (f k')) \<subseteq> B k'"
      using that Cons.prems(3) by simp_all
    ultimately show ?thesis by blast
  qed
  moreover have "distinct (all_paths (chg_concat (map f ks)))"
    using Cons.prems by (intro Cons.IH) simp_all
  moreover have "distinct (all_paths (f k))"
    using Cons.prems(2) by simp
  ultimately show ?case
    by (auto simp: all_paths_append all_paths_concat_set)
qed


lemma deepCompare_single:
  assumes "getType oldVal \<noteq> getType newVal \<or>
           (getType oldVal \<noteq> ''object'' \<and> getType oldVal \<noteq> ''array'')"
  shows "all_paths (deepCompare oldVal newVal p empty_changes) = [p]"
proof -
  have "getType oldVal = ''null'' \<and> oldVal = JNull \<or> getType oldVal = ''array'' \<or>
      getType oldVal = ''object'' \<or> getType oldVal = ''primitive'' \<and> oldVal \<noteq> JNull"
    by (cases oldVal) simp_all
  moreover have "getType newVal = ''null'' \<longleftrightarrow> newVal = JNull"
    by (cases newVal) simp_all
  ultimately show ?thesis
    using assms
    by (auto simp: deepCompare.simps [of oldVal newVal] all_paths_def empty_changes_def)
qed

lemma prop_member:
  assumes "k \<in> set (Object_keys kvs)"
  shows "(k, get_prop kvs k) \<in> set kvs"
proof -
  from assms obtain v where "map_of kvs k = Some v"
    by (cases "map_of kvs k") (auto simp: Object_keys_def map_of_eq_None_iff)
  then show ?thesis
    by (simp add: get_prop_def map_of_SomeD)
qed

lemma paths_below:
  "set (all_paths (deepCompare oldVal newVal p empty_changes)) \<subseteq> below p"
proof (induction oldVal arbitrary: newVal p)
  case (JArr xs)
  show ?case
  proof (cases "getType newVal = ''array''")
    case True
    then obtain ys where ys: "newVal = JArr ys"
      by (auto simp: getType_array)
    have "set (all_paths (index_changes xs ys p i)) \<subseteq> below p" for i
    proof (cases "i < length xs \<and> i < length ys")
      case True
      then have "set (all_paths (index_changes xs ys p i)) \<subseteq> below (indexPath p i)"
        using JArr.IH [of "xs ! i" "ys ! i" "indexPath p i"] by (simp add: index_changes_def)
      then show ?thesis
        using below_indexPath [of p i] by blast
    next
      case False
      then have "set (all_paths (index_changes xs ys p i)) = {indexPath p i}"
        by (simp add: index_changes_def all_paths_def empty_changes_def)
      then show ?thesis
        using below_indexPath [of p i] below_self [of "indexPath p i"] by auto
    qed
    then show ?thesis
      by (auto simp: ys deepCompare.simps compareArrays_concat all_paths_append all_paths_concat_set)
  next
    case False
    then show ?thesis
      by (simp add: deepCompare_single below_self)
  qed
next
  case (JObj kvs)
  show ?case
  proof (cases "getType newVal = ''object''")
    case True
    then obtain kvs' where kvs': "newVal = JObj kvs'"
      by (auto simp: getType_object)
    have "set (all_paths (key_changes kvs kvs' p k)) \<subseteq> below p" for k
    proof (cases "k \<in> set (Object_keys kvs) \<and> k \<in> set (Object_keys kvs')")
      case True
      then have "(k, get_prop kvs k) \<in> set kvs"
        by (simp add: prop_member)
      then have "set (all_paths (key_changes kvs kvs' p k)) \<subseteq> below (keyPath p k)"
        using True JObj.IH [of "(k, get_prop kvs k)" "get_prop kvs k" "get_prop kvs' k" "keyPath p k"]
        by (simp add: key_changes_def)
      then show ?thesis
        using below_keyPath [of p k] by blast
    next
      case False
      then have "set (all_paths (key_changes kvs kvs' p k)) = {keyPath p k}"
        by (auto simp: key_changes_def all_paths_def empty_changes_def)
      then show ?thesis
        using below_keyPath [of p k] below_self [of "keyPath p k"] by auto
    qed
    then show ?thesis
      by (auto simp: kvs' deepCompare.simps compareObjects_concat all_paths_append all_paths_concat_set)
  next
    case False
    then show ?thesis
      by (simp add: deepCompare_single below_self)
  qed
qed (simp_all add: deepCompare_single below_self)


lemma all_keys_member: "all_keys P (JObj kvs) \<Longrightarrow> (k, v) \<in> set kvs \<Longrightarrow> P k \<and> all_keys P v"
  by (auto simp: list_all_iff)

lemma paths_distinct:
  "all_keys plain_key oldVal \<Longrightarrow> all_keys plain_key newVal \<Longrightarrow>
   distinct (all_paths (deepCompare oldVal newVal p empty_changes))"
proof (induction oldVal arbitrary: newVal p)
  case (JArr xs)
  show ?case
  proof (cases "getType newVal = ''array''")
    case True
    then obtain ys where ys: "newVal = JArr ys"
      by (auto simp: getType_array)
    have "distinct (all_paths (chg_concat (map (index_changes xs ys p)
        [0..<max (length xs) (length ys)])))"
    proof (rule all_paths_concat_distinct [where B = "\<lambda>i. below (indexPath p i)"])
      show "distinct [0..<max (length xs) (length ys)]"
        by simp
      show "distinct (all_paths (index_changes xs ys p i))" for i
      proof (cases "i < length xs \<and> i < length ys")
        case True
        then have "all_keys plain_key (xs ! i)" "all_keys plain_key (ys ! i)"
          using JArr.prems by (simp_all add: ys list_all_length)
        then show ?thesis
          using True JArr.IH [of "xs ! i" "ys ! i" "indexPath p i"] by (simp add: index_changes_def)
      next
        case False
        then show ?thesis
          by (simp add: index_changes_def all_paths_def empty_changes_def)
      qed
      show "set (all_paths (index_changes xs ys p i)) \<subseteq> below (indexPath p i)" for i
        by (simp add: index_changes_def paths_below)
          (simp add: all_paths_def empty_changes_def below_self)
      show "below (indexPath p i) \<inter> below (indexPath p j) = {}" if "i \<noteq> j" for i j
        using that by (rule below_indexPath_disjoint)
    qed
    then show ?thesis
      by (simp add: ys deepCompare.simps compareArrays_concat)
  next
    case False
    then show ?thesis
      by (simp add: deepCompare_single)
  qed
next
  case (JObj kvs)
  show ?case
  proof (cases "getType newVal = ''object''")
    case True
    then obtain kvs' where kvs': "newVal = JObj kvs'"
      by (auto simp: getType_object)
    let ?ks = "Set_of (Object_keys kvs @ Object_keys kvs')"
    have key: "plain_key k" if "k \<in> set ?ks" for k
    proof -
      from that have "k \<in> set (Object_keys kvs) \<or> k \<in> set (Object_keys kvs')"
        by simp
      then have "(k, get_prop kvs k) \<in> set kvs \<or> (k, get_prop kvs' k) \<in> set kvs'"
        using prop_member by blast
      then show ?thesis
        using JObj.prems all_keys_member unfolding kvs' by blast
    qed
    have "distinct (all_paths (chg_concat (map (key_changes kvs kvs' p) ?ks)))"
    proof (rule all_paths_concat_distinct [where B = "\<lambda>k. below (keyPath p k)"])
      show "distinct ?ks"
        by simp
      show "distinct (all_paths (key_changes kvs kvs' p k))" for k
      proof (cases "k \<in> set (Object_keys kvs) \<and> k \<in> set (Object_keys kvs')")
        case True
        then have m: "(k, get_prop kvs k) \<in> set kvs" "(k, get_prop kvs' k) \<in> set kvs'"
          by (simp_all add: prop_member)
        then have "all_keys plain_key (get_prop kvs k)" "all_keys plain_key (get_prop kvs' k)"
          using JObj.prems all_keys_member unfolding kvs' by blast+
        then show ?thesis
          using True m(1)
            JObj.IH [of "(k, get_prop kvs k)" "get_prop kvs k" "get_prop kvs' k" "keyPath p k"]
          by (simp add: key_changes_def)
      next
        case False
        then show ?thesis
          by (auto simp: key_changes_def all_paths_def empty_changes_def)
      qed
      show "set (all_paths (key_changes kvs kvs' p k)) \<subseteq> below (keyPath p k)" for k
        by (simp add: key_changes_def paths_below)
          (simp add: all_paths_def empty_changes_def below_self)
      show "below (keyPath p k) \<inter> below (keyPath p k') = {}"
        if "k \<in> set ?ks" and "k' \<in> set ?ks" and "k \<noteq> k'" for k k'
        using that key [of k] key [of k']
        by (intro below_keyPath_disjoint) (simp_all add: plain_key_def)
    qed
    then show ?thesis
      by (simp add: kvs' deepCompare.simps compareObjects_concat)
  next
    case False
    then show ?thesis
      by (simp add: deepCompare_single)
  qed
qed (simp_all add: deepCompare_single)

text \<open>
  Claim C10, as the code has it. For two values whose object keys are not empty and contain no
  dot and no bracket, no path occurs twice among the records of the result of \<open>compare\<close>: each
  of the four path lists is free of duplicates, and no two of them share a path.
\<close>

theorem C10_path_disjointness:
  assumes "all_keys plain_key X" and "all_keys plain_key Y"
  shows "distinct (all_paths (compare X Y))"
  unfolding compare_def using assms by (rule paths_distinct)

theorem C10_path_disjointness_witness:
  "all_keys plain_key (JObj [(''a'', JArr [JNum (1::int), JNum 2, JNum 3]), (''b'', JNull)])
   \<and> all_keys plain_key (JObj [(''a'', JArr [JNum (1::int), JNum 5]), (''c'', JObj [])])
   \<and> all_paths (compare (JObj [(''a'', JArr [JNum (1::int), JNum 2, JNum 3]), (''b'', JNull)])
        (JObj [(''a'', JArr [JNum (1::int), JNum 5]), (''c'', JObj [])])) =
       [''c'', ''a[2]'', ''b'', ''a[1]'', ''a[0]'']
   \<and> distinct (all_paths (compare (JObj [(''a'', JArr [JNum (1::int), JNum 2, JNum 3]), (''b'', JNull)])
        (JObj [(''a'', JArr [JNum (1::int), JNum 5]), (''c'', JObj [])])))"
  using C10_path_disjointness [of "JObj [(''a'', JArr [JNum (1::int), JNum 2, JNum 3]), (''b'', JNull)]"
      "JObj [(''a'', JArr [JNum (1::int), JNum 5]), (''c'', JObj [])]"]
  by (simp add: plain_key_def no_special_def all_paths_def eval_simps)

text \<open>
  The claim as stated admits the empty key, and fails there: \<open>keyPath\<close> takes an empty path
  for the root, so below the key \<^verbatim>\<open>''\<close> of the root the paths start afresh. Comparing
  \<^verbatim>\<open>{'': {b: 1}, b: 1}\<close> with itself yields two Unchanged records with the path \<^verbatim>\<open>b\<close>.
\<close>

theorem C10_empty_key_counterexample:
  "all_keys no_special (JObj [([], JObj [(''b'', JNum (1::int))]), (''b'', JNum 1)])
   \<and> well_formed (JObj [([], JObj [(''b'', JNum (1::int))]), (''b'', JNum 1)])
   \<and> map path (unchanged (compare (JObj [([], JObj [(''b'', JNum (1::int))]), (''b'', JNum 1)])
        (JObj [([], JObj [(''b'', JNum (1::int))]), (''b'', JNum 1)]))) = [''b'', ''b'']"
  by (simp add: no_special_def eval_simps)

section \<open>Path round trip\<close>

lemma format_keys: "format (map Key ks) = fold (\<lambda>k p. keyPath p k) ks []"
  by (simp add: format_def fold_map comp_def)

lemma fold_keyPath:
  "acc \<noteq> [] \<Longrightarrow> fold (\<lambda>k p. keyPath p k) ks acc = acc @ concat (map ((@) ''.'') ks)"
  by (induction ks arbitrary: acc) (simp_all add: keyPath_def)

lemma split_dot_step:
  "CHR ''.'' \<notin> set k \<Longrightarrow> split_dot (k @ CHR ''.'' # r) = k # split_dot r"
  by (induction k) auto

lemma split_dot_plain: "CHR ''.'' \<notin> set k \<Longrightarrow> split_dot k = [k]"
  by (induction k) auto

lemma split_dot_joined:
  "CHR ''.'' \<notin> set k \<Longrightarrow> \<forall>k'\<in>set ks. CHR ''.'' \<notin> set k' \<Longrightarrow>
   split_dot (k @ concat (map ((@) ''.'') ks)) = k # ks"
proof (induction ks arbitrary: k)
  case Nil
  then show ?case by (simp add: split_dot_plain)
next
  case (Cons k' ks)
  have "split_dot (k @ concat (map ((@) ''.'') (k' # ks))) =
      split_dot (k @ CHR ''.'' # (k' @ concat (map ((@) ''.'') ks)))"
    by simp
  also have "\<dots> = k # split_dot (k' @ concat (map ((@) ''.'') ks))"
    using Cons.prems(1) by (rule split_dot_step)
  also have "split_dot (k' @ concat (map ((@) ''.'') ks)) = k' # ks"
    using Cons.prems(2) by (intro Cons.IH) simp_all
  finally show ?case .
qed

lemma replace_index_plain: "CHR ''['' \<notin> set k \<Longrightarrow> replace_index k = k"
  by (induction k) auto

lemma no_special_chars:
  "no_special k \<Longrightarrow> CHR ''.'' \<notin> set k \<and> CHR ''['' \<notin> set k \<and> CHR '']'' \<notin> set k"
  by (auto simp: no_special_def list_all_iff)

text \<open>
  Claim C4, as the code has it. \<^verbatim>\<open>getPathParts\<close> splits a path at its dots and removes an index
  marker from each part, so it returns key names only. For a path built from object keys that
  contain no dot and no bracket, and from no array index, formatting the parts again yields the
  path.
\<close>

theorem C4_key_path_round_trip:
  assumes "list_all no_special ks"
  shows "format (map Key (getPathParts (format (map Key ks)))) = format (map Key ks)"
  using assms
proof (induction ks)
  case Nil
  show ?case
    by (simp add: format_def getPathParts_def keyPath_def)
next
  case (Cons k ks)
  show ?case
  proof (cases "k = []")
    case True
    then have "format (map Key (k # ks)) = format (map Key ks)"
      unfolding format_keys by (simp add: keyPath_def)
    then show ?thesis
      using Cons by simp
  next
    case False
    have plain: "CHR ''.'' \<notin> set k" "\<forall>k'\<in>set ks. CHR ''.'' \<notin> set k'"
      "\<forall>k'\<in>set (k # ks). CHR ''['' \<notin> set k'"
      using Cons.prems no_special_chars by (auto simp: list_all_iff)
    have "format (map Key (k # ks)) = fold (\<lambda>k p. keyPath p k) ks k"
      unfolding format_keys by (simp add: keyPath_def)
    then have p: "format (map Key (k # ks)) = k @ concat (map ((@) ''.'') ks)"
      using False by (simp add: fold_keyPath)
    have "getPathParts (k @ concat (map ((@) ''.'') ks)) = map replace_index (k # ks)"
      unfolding getPathParts_def using split_dot_joined [OF plain(1,2)] by simp
    also have "\<dots> = k # ks"
      using plain(3) by (intro map_idI replace_index_plain) auto
    finally show ?thesis
      by (simp only: p)
  qed
qed

theorem C4_key_path_round_trip_witness:
  "list_all no_special [''dmp'', ''dataset'', ''title'']
   \<and> format (map Key [''dmp'', ''dataset'', ''title'']) = ''dmp.dataset.title''
   \<and> format (map Key (getPathParts ''dmp.dataset.title'')) = ''dmp.dataset.title''"
  using C4_key_path_round_trip [of "[''dmp'', ''dataset'', ''title'']"]
  by (simp add: no_special_def format_def keyPath_def)

text \<open>
  The claim as stated fails at every path with an array index. The comparator produces the
  path \<^verbatim>\<open>a[2]\<close>, which is the format of the key \<^verbatim>\<open>a\<close> followed by the index 2;
  \<^verbatim>\<open>getPathParts\<close> returns the single part \<^verbatim>\<open>a\<close>, whose format is \<^verbatim>\<open>a\<close>.
\<close>

theorem C4_index_counterexample:
  "map path (removed (compare (JObj [(''a'', JArr [JNum (1::int), JNum 2, JNum 3])])
      (JObj [(''a'', JArr [JNum 1, JNum 2])]))) = [''a[2]'']
   \<and> format [Key ''a'', Index 2] = ''a[2]''
   \<and> getPathParts ''a[2]'' = [''a'']
   \<and> format (map Key (getPathParts ''a[2]'')) = ''a''
   \<and> format (map Key (getPathParts ''a[2]'')) \<noteq> ''a[2]''"
  by (simp add: eval_simps format_def getPathParts_def is_digit_def)

section \<open>Change percentage\<close>

subsection \<open>The error of rounding to a double\<close>

lemma round_even_error: "\<bar>of_int (round_even x) - x\<bar> \<le> 1 / 2"
proof -
  have "of_int \<lfloor>x\<rfloor> \<le> x" "x < of_int \<lfloor>x\<rfloor> + 1"
    by linarith+
  then show ?thesis
    by (auto simp: round_even_def Let_def)
qed

lemma binade_lower:
  assumes "0 < x"
  shows "2 powi (binade x) \<le> x"
proof (cases "1 \<le> x")
  case True
  define n where "n = nat \<lfloor>x\<rfloor>"
  have n: "0 < n" "of_nat n \<le> x"
    using True by (simp_all add: n_def)
  have "2 ^ (floorlog 2 n - 1) \<le> n"
    using floorlog_bounds [of n 2] n(1) by simp
  then have "(2::rat) ^ (floorlog 2 n - 1) \<le> of_nat n"
    by (metis of_nat_le_iff of_nat_numeral of_nat_power)
  moreover have "0 < floorlog 2 n"
    using n(1) by (simp add: floorlog_def)
  then have "int (floorlog 2 n) - 1 = int (floorlog 2 n - 1)"
    by simp
  ultimately have "(2::rat) powi (int (floorlog 2 n) - 1) \<le> of_nat n"
    by (simp only: power_int_of_nat)
  then have "(2::rat) powi (int (floorlog 2 n) - 1) \<le> x"
    using n(2) by (rule order_trans)
  moreover have "binade x = int (floorlog 2 n) - 1"
    using True by (simp add: binade_def n_def)
  ultimately show ?thesis
    by simp
next
  case False
  define c where "c = \<lceil>1 / x\<rceil>"
  define m where "m = nat c - 1"
  have "1 < 1 / x"
    using False assms by simp
  then have "2 \<le> c"
    unfolding c_def by linarith
  then have m: "0 < m" "int m + 1 = c"
    by (simp_all add: m_def)
  have "m < 2 ^ floorlog 2 m"
    using floorlog_bounds [of m 2] m(1) by simp
  then have "int m < 2 ^ floorlog 2 m"
    by (metis of_nat_less_iff of_nat_numeral of_nat_power)
  then have "c \<le> 2 ^ floorlog 2 m"
    using m(2) by linarith
  then have "1 / x \<le> 2 ^ floorlog 2 m"
    unfolding c_def by (metis ceiling_le_iff of_int_numeral of_int_power)
  then have "1 / 2 ^ floorlog 2 m \<le> x"
    using assms by (simp add: field_simps)
  moreover have "binade x = - int (floorlog 2 m)"
    using False by (simp add: binade_def m_def c_def)
  ultimately show ?thesis
    by (simp add: power_int_minus field_simps)
qed


lemma binade_upper:
  assumes "0 < x"
  shows "x < 2 powi (binade x + 1)"
proof (cases "1 \<le> x")
  case True
  define n where "n = nat \<lfloor>x\<rfloor>"
  have n: "0 < n" "x < of_nat n + 1"
    using True by (simp_all add: n_def) linarith
  have "n < 2 ^ floorlog 2 n"
    using floorlog_bounds [of n 2] n(1) by simp
  then have "n + 1 \<le> 2 ^ floorlog 2 n"
    by simp
  then have "(of_nat (n + 1) :: rat) \<le> of_nat (2 ^ floorlog 2 n)"
    by (simp only: of_nat_le_iff)
  then have "(of_nat n + 1 :: rat) \<le> 2 ^ floorlog 2 n"
    by simp
  then have "x < 2 ^ floorlog 2 n"
    using n(2) by linarith
  moreover have "binade x + 1 = int (floorlog 2 n)"
    using True by (simp add: binade_def n_def)
  ultimately show ?thesis
    by (simp only: power_int_of_nat)
next
  case False
  define c where "c = \<lceil>1 / x\<rceil>"
  define m where "m = nat c - 1"
  have "1 < 1 / x"
    using False assms by simp
  then have "2 \<le> c"
    unfolding c_def by linarith
  then have m: "0 < m" "int m + 1 = c"
    by (simp_all add: m_def)
  have k: "0 < floorlog 2 m"
    using m(1) by (simp add: floorlog_def)
  have "2 ^ (floorlog 2 m - 1) \<le> m"
    using floorlog_bounds [of m 2] m(1) by simp
  then have "(of_nat (2 ^ (floorlog 2 m - 1)) :: rat) \<le> of_nat m"
    by (simp only: of_nat_le_iff)
  then have "(2 :: rat) ^ (floorlog 2 m - 1) \<le> of_nat m"
    by simp
  moreover have "(of_nat m :: rat) = of_int c - 1"
    using m(2) by (metis add_diff_cancel_right' of_int_1 of_int_add of_int_of_nat_eq)
  moreover have "of_int c - 1 < 1 / x"
    unfolding c_def by linarith
  ultimately have "(2 :: rat) ^ (floorlog 2 m - 1) < 1 / x"
    by linarith
  then have "x * 2 ^ (floorlog 2 m - 1) < 1"
    using assms by (simp add: field_simps)
  then have "x < 1 / 2 ^ (floorlog 2 m - 1)"
    by (simp add: field_simps)
  moreover have "binade x + 1 = - int (floorlog 2 m - 1)"
    using False k by (simp add: binade_def m_def c_def)
  ultimately show ?thesis
    by (simp add: power_int_minus field_simps)
qed

lemma round_double_error:
  assumes "0 < x"
  shows "\<bar>round_double x - x\<bar> \<le> x / 2 ^ 53"
proof -
  define u :: rat where "u = 2 powi (binade x - 52)"
  define n where "n = round_even (x / u)"
  have u: "0 < u"
    by (simp add: u_def)
  have u2: "u / 2 = 2 powi (binade x) / 2 ^ 53"
    by (simp add: u_def power_int_diff)
  have "round_double x = of_int n * u"
    using assms by (simp add: round_double_def n_def u_def Let_def)
  then have "round_double x - x = (of_int n - x / u) * u"
    using u by (simp add: field_simps)
  then have "\<bar>round_double x - x\<bar> = \<bar>of_int n - x / u\<bar> * u"
    using u by (simp add: abs_mult)
  also have "\<dots> \<le> 1 / 2 * u"
    using round_even_error [of "x / u"] u unfolding n_def
    by (intro mult_right_mono) simp_all
  also have "\<dots> = 2 powi (binade x) / 2 ^ 53"
    using u2 by simp
  also have "\<dots> \<le> x / 2 ^ 53"
    using binade_lower [OF assms] by (simp add: divide_right_mono)
  finally show ?thesis .
qed

lemma floor_stable:
  fixes z d :: rat
  assumes "0 < D" and "of_int N = z * of_int D" and "\<not> D dvd N" and "\<bar>d\<bar> < 1 / of_int D"
  shows "\<lfloor>z + d\<rfloor> = \<lfloor>z\<rfloor>"
proof -
  define K R where "K = N div D" and "R = N mod D"
  have "0 \<le> R" "R \<noteq> 0" "R < D"
    using assms(1,3) by (simp_all add: R_def dvd_eq_mod_eq_0)
  then have R: "0 < R" "R < D"
    by simp_all
  have "N = K * D + R"
    by (simp add: K_def R_def)
  then have "z * of_int D = of_int K * of_int D + of_int R"
    using assms(2) by (metis of_int_add of_int_mult)
  then have z: "z = of_int K + of_int R / of_int D"
    using assms(1) by (simp add: field_simps)
  have lo: "1 / of_int D \<le> (of_int R / of_int D :: rat)"
    using R(1) assms(1) by (simp add: divide_right_mono)
  have "of_int R + 1 \<le> (of_int D :: rat)"
    using R(2) by (metis of_int_1 of_int_add of_int_le_iff zless_imp_add1_zle)
  then have hi: "of_int R / of_int D + 1 / of_int D \<le> (1 :: rat)"
    using assms(1) by (simp add: field_simps)
  define f e :: rat where "f = of_int R / of_int D" and "e = 1 / of_int D"
  have e: "0 < e"
    using assms(1) by (simp add: e_def)
  have facts: "z = of_int K + f" "e \<le> f" "f + e \<le> 1" "\<bar>d\<bar> < e"
    using z lo hi assms(4) by (simp_all add: f_def e_def)
  have "\<lfloor>z\<rfloor> = K"
    using facts e by (intro floor_unique) linarith+
  moreover have "\<lfloor>z + d\<rfloor> = K"
    using facts e by (intro floor_unique) linarith+
  ultimately show ?thesis by simp
qed

lemma floor_near_int:
  fixes d :: rat
  assumes "\<bar>d\<bar> < 1"
  shows "\<lfloor>of_int K + d\<rfloor> = K - 1 \<or> \<lfloor>of_int K + d\<rfloor> = K"
proof (cases "0 \<le> d")
  case True
  then have "\<lfloor>of_int K + d\<rfloor> = K"
    using assms by (intro floor_unique) simp_all
  then show ?thesis ..
next
  case False
  then have "\<lfloor>of_int K + d\<rfloor> = K - 1"
    using assms by (intro floor_unique) simp_all
  then show ?thesis ..
qed


lemma percentage_error:
  fixes c t :: nat
  assumes "0 < c" and "c \<le> t"
  shows "\<bar>fmul (fdiv (of_nat c) (of_nat t)) 100 - 100 * of_nat c / of_nat t\<bar> \<le> 201 / 2 ^ 53"
proof -
  define q :: rat where "q = of_nat c / of_nat t"
  define e :: rat where "e = 1 / 2 ^ 53"
  define a where "a = round_double q"
  define r where "r = round_double (a * 100)"
  have q: "0 < q" "q \<le> 1"
    using assms by (simp_all add: q_def)
  have e: "0 < e" "100 * e \<le> 1"
    by (simp_all add: e_def)
  have "\<bar>a - q\<bar> \<le> q * e"
    using round_double_error [OF q(1)] by (simp add: a_def e_def)
  moreover have "q * e \<le> e"
    using q e(1) by (simp add: mult_left_le_one_le)
  moreover have "q * e < q"
    using q(1) e by (simp add: e_def)
  ultimately have a: "\<bar>a - q\<bar> \<le> e" "0 < a" "a \<le> 1 + e"
    using q by linarith+
  have "\<bar>r - a * 100\<bar> \<le> a * 100 * e"
    using round_double_error [of "a * 100"] a(2) by (simp add: r_def e_def)
  moreover have "a * 100 * e \<le> (1 + e) * 100 * e"
    using a(3) e(1) by (simp add: mult_right_mono)
  moreover have "(1 + e) * 100 * e = 100 * e + 100 * e * e"
    by (simp add: algebra_simps)
  moreover have "100 * e * e \<le> 1 * e"
    using e by (intro mult_right_mono) simp_all
  ultimately have "\<bar>r - a * 100\<bar> \<le> 101 * e"
    by linarith
  then have "\<bar>r - 100 * q\<bar> \<le> 201 * e"
    using a(1) by linarith
  then show ?thesis
    by (simp add: r_def a_def q_def e_def fmul_def fdiv_def)
qed

lemma percentage_rounding:
  fixes c t :: nat
  assumes "c \<le> t" and "0 < t" and "t < 2 ^ 34"
  defines "y \<equiv> (100 * of_nat c / of_nat t :: rat)"
  defines "p \<equiv> Math_round (fmul (fdiv (of_nat c) (of_nat t)) 100)"
  shows "frac y \<noteq> 1 / 2 \<longrightarrow> p = round y"
    and "p = round y \<or> p = round y - 1"
    and "0 \<le> p \<and> p \<le> 100"
proof -
  have result: "(frac y \<noteq> 1 / 2 \<longrightarrow> p = round y) \<and> (p = round y \<or> p = round y - 1) \<and>
      (0 \<le> p \<and> p \<le> 100)"
  proof (cases "c = 0")
    case True
    have "\<lfloor>1 / 2 :: rat\<rfloor> = 0"
      by (rule floor_unique) simp_all
    with True show ?thesis
      by (simp add: p_def y_def fdiv_def fmul_def round_double_def Math_round_def)
  next
    case False
    define d where "d = fmul (fdiv (of_nat c) (of_nat t)) 100 - y"
    define z where "z = y + 1 / 2"
    define D N :: int where "D = 2 * int t" and "N = 200 * int c + int t"
    have "(of_nat c :: rat) \<le> of_nat t" "(0 :: rat) < of_nat t" "(0 :: rat) < of_nat c"
      using False assms(1,2) by simp_all
    then have y: "0 < y" "y \<le> 100"
      by (simp_all add: y_def field_simps)
    have D: "0 < D"
      using assms(2) by (simp add: D_def)
    have "402 * int t < 2 ^ 53"
    proof -
      have "int t < 2 ^ 34"
        using assms(3) by (metis of_nat_less_iff of_nat_numeral of_nat_power)
      then show ?thesis by simp
    qed
    then have "201 * D < 2 ^ 53"
      by (simp add: D_def)
    then have "201 * (of_int D :: rat) < 2 ^ 53"
      by (metis of_int_less_iff of_int_mult of_int_numeral of_int_power)
    then have small: "201 / 2 ^ 53 < 1 / (of_int D :: rat)"
      using D by (simp add: field_simps)
    have "\<bar>d\<bar> \<le> 201 / 2 ^ 53"
      using percentage_error [of c t] False assms(1) by (simp add: d_def y_def)
    then have d: "\<bar>d\<bar> < 1 / of_int D"
      using small by linarith
    have "1 / (of_int D :: rat) \<le> 1"
      using D by simp
    then have d1: "\<bar>d\<bar> < 1"
      using d by linarith
    have "z + d = fmul (fdiv (of_nat c) (of_nat t)) 100 + 1 / 2"
      by (simp add: d_def z_def)
    then have p: "p = \<lfloor>z + d\<rfloor>"
      by (simp only: p_def Math_round_def)
    have ry: "round y = \<lfloor>z\<rfloor>"
      by (simp add: round_def z_def)
    have N: "of_int N = z * of_int D"
      using assms(2) by (simp add: N_def D_def z_def y_def field_simps)
    show ?thesis
    proof (cases "D dvd N")
      case True
      then obtain K where "N = D * K" ..
      then have "z * of_int D = of_int K * of_int D"
        using N by (metis mult.commute of_int_mult)
      then have zK: "z = of_int K"
        using D by simp
      then have "y - 1 / 2 = of_int (K - 1)"
        by (simp add: z_def)
      then have "y - 1 / 2 \<in> \<int>"
        by (simp only: Ints_of_int)
      then have "frac y = 1 / 2"
        by (subst frac_unique_iff) simp
      moreover have "p = K - 1 \<or> p = K"
        unfolding p zK using d1 by (rule floor_near_int)
      moreover have "round y = K"
        by (simp add: ry zK)
      moreover have "1 \<le> K" "K \<le> 100"
      proof -
        have "(of_int 0 :: rat) < of_int K" "(of_int K :: rat) < of_int 101"
          using y zK unfolding z_def by simp_all
        then have "0 < K" "K < 101"
          by (simp_all only: of_int_less_iff)
        then show "1 \<le> K" "K \<le> 100"
          by simp_all
      qed
      ultimately show ?thesis
        by auto
    next
      case False
      have "p = round y"
        unfolding p ry using D N False d by (rule floor_stable)
      moreover have "0 \<le> round y" "round y \<le> 100"
        using y by (simp_all add: round_def)
      ultimately show ?thesis
        by simp
    qed
  qed
  show "frac y \<noteq> 1 / 2 \<longrightarrow> p = round y"
    and "p = round y \<or> p = round y - 1"
    and "0 \<le> p \<and> p \<le> 100"
    using result by simp_all
qed


text \<open>
  Claim C6, as the code has it. \<^verbatim>\<open>calculateStats\<close> takes \<^verbatim>\<open>changePercentage\<close> from
  \<^verbatim>\<open>calculateChangePercentage\<close>, which returns 0 when the four sequences are all empty, without
  dividing. Otherwise it rounds the double product of the double quotient \<^verbatim>\<open>changed / total\<close> by
  100. For a total below \<open>2^34\<close> (four JavaScript arrays) the result is an integer from 0 to
  100; it is \<open>round (100 * totalChanges / (totalChanges + unchanged))\<close> whenever that quotient is
  not exactly halfway between two integers, and at such a tie it is that number or one less.
\<close>

theorem C6_change_percentage:
  fixes r :: "'n changes"
  shows "let s = calculateStats r;
             total = totalChanges s + stats_unchanged s;
             exact = (100 * of_nat (totalChanges s) / of_nat total :: rat)
         in (total = 0 \<longrightarrow> changePercentage s = 0)
          \<and> (0 < total \<and> total < 2 ^ 34 \<and> frac exact \<noteq> 1 / 2 \<longrightarrow> changePercentage s = round exact)
          \<and> (0 < total \<and> total < 2 ^ 34 \<longrightarrow>
               (changePercentage s = round exact \<or> changePercentage s = round exact - 1)
               \<and> 0 \<le> changePercentage s \<and> changePercentage s \<le> 100)"
proof -
  define c where "c = length (added r) + length (removed r) + length (modified r)"
  define t where "t = c + length (unchanged r)"
  have s: "totalChanges (calculateStats r) = c" "stats_unchanged (calculateStats r) = t - c"
    by (simp_all add: calculateStats_def c_def t_def)
  have ct: "c \<le> t" "c + (t - c) = t"
    by (simp_all add: t_def)
  have cp: "calculateChangePercentage r =
      (if t = 0 then 0 else Math_round (fmul (fdiv (of_nat c) (of_nat t)) 100))"
    unfolding calculateChangePercentage_def Let_def c_def t_def by (rule refl)
  have "changePercentage (calculateStats r) = calculateChangePercentage r"
    by (simp add: calculateStats_def)
  then have cs: "changePercentage (calculateStats r) =
      (if t = 0 then 0 else Math_round (fmul (fdiv (of_nat c) (of_nat t)) 100))"
    by (simp only: cp)
  have zero: "changePercentage (calculateStats r) = 0" if "t = 0"
    using that by (simp add: cs)
  have pos: "changePercentage (calculateStats r) =
      Math_round (fmul (fdiv (of_nat c) (of_nat t)) 100)" if "0 < t"
    using that by (simp add: cs)
  show ?thesis
    unfolding Let_def s ct(2)
    using zero pos percentage_rounding [OF ct(1)] by simp
qed


text \<open>
  The hypotheses hold at the empty result, at one change among three records (33 percent, no
  tie) and at 23 changes among 40 records (a tie).
\<close>

theorem C6_change_percentage_witness:
  "changePercentage (calculateStats (empty_changes :: int changes)) = 0
   \<and> frac (100 / 3 :: rat) \<noteq> 1 / 2
   \<and> changePercentage (calculateStats
         \<lparr>added = [\<lparr>path = [], val = JNull :: int json, type = ''null''\<rparr>], removed = [],
          modified = [],
          unchanged = replicate 2 \<lparr>path = [], val = JNull, type = ''null''\<rparr>\<rparr>) = 33
   \<and> changePercentage (calculateStats
         \<lparr>added = replicate 23 \<lparr>path = [], val = JNull :: int json, type = ''null''\<rparr>,
          removed = [], modified = [],
          unchanged = replicate 17 \<lparr>path = [], val = JNull, type = ''null''\<rparr>\<rparr>) \<in> {57, 58}"
proof -
  let ?c = "\<lparr>path = [], val = JNull :: int json, type = ''null''\<rparr>"
  let ?r1 = "\<lparr>added = [?c], removed = [], modified = [], unchanged = replicate 2 ?c\<rparr>"
  let ?r2 = "\<lparr>added = replicate 23 ?c, removed = [], modified = [], unchanged = replicate 17 ?c\<rparr>"
  have f: "frac (100 / 3 :: rat) \<noteq> 1 / 2"
    by code_simp
  have r: "round (100 / 3 :: rat) = 33" "round (2300 / 40 :: rat) = 58"
    by code_simp+
  have s0: "totalChanges (calculateStats (empty_changes :: int changes)) = 0"
    "stats_unchanged (calculateStats (empty_changes :: int changes)) = 0"
    by (simp_all add: calculateStats_def empty_changes_def)
  have s1: "totalChanges (calculateStats ?r1) = 1" "stats_unchanged (calculateStats ?r1) = 2"
    by (simp_all add: calculateStats_def)
  have s2: "totalChanges (calculateStats ?r2) = 23" "stats_unchanged (calculateStats ?r2) = 17"
    by (simp_all add: calculateStats_def)
  have "changePercentage (calculateStats (empty_changes :: int changes)) = 0"
    using C6_change_percentage [of "empty_changes :: int changes"]
    unfolding Let_def s0 by simp
  moreover have "changePercentage (calculateStats ?r1) = 33"
    using C6_change_percentage [of ?r1] f r(1)
    unfolding Let_def s1 by simp
  moreover have "changePercentage (calculateStats ?r2) \<in> {57, 58}"
    using C6_change_percentage [of ?r2] r(2)
    unfolding Let_def s2 by auto
  ultimately show ?thesis
    using f by simp
qed

text \<open>
  The claim as stated fails at a tie: with 23 changes among 40 records the exact percentage is
  57.5, which rounds to 58, but the double nearest to \<open>23 / 40\<close> is below it, the product is
  below 57.5, and the code returns 57.
\<close>

theorem C6_tie_counterexample:
  "totalChanges (calculateStats
     \<lparr>added = replicate 23 \<lparr>path = [], val = JNull :: int json, type = ''null''\<rparr>,
      removed = [], modified = [],
      unchanged = replicate 17 \<lparr>path = [], val = JNull, type = ''null''\<rparr>\<rparr>) = 23
   \<and> stats_unchanged (calculateStats
     \<lparr>added = replicate 23 \<lparr>path = [], val = JNull :: int json, type = ''null''\<rparr>,
      removed = [], modified = [],
      unchanged = replicate 17 \<lparr>path = [], val = JNull, type = ''null''\<rparr>\<rparr>) = 17
   \<and> changePercentage (calculateStats
     \<lparr>added = replicate 23 \<lparr>path = [], val = JNull :: int json, type = ''null''\<rparr>,
      removed = [], modified = [],
      unchanged = replicate 17 \<lparr>path = [], val = JNull, type = ''null''\<rparr>\<rparr>) = 57
   \<and> round (100 * 23 / (23 + 17) :: rat) = 58"
  by code_simp

end
